theory Spec2Isabelle
  imports Main "HOL-Library.Word" "HOL-Library.AList"
begin

section \<open>Background worker (compress-worker.js)\<close>

text \<open>
  The worker owns one Ghostscript engine and answers every message it receives with exactly
  one reply. Byte buffers (\<open>ArrayBuffer\<close>, \<open>Uint8Array\<close>) are lists of octets; the
  Ghostscript binary itself is opaque, so each call into it takes its outcome as an argument.
\<close>

type_synonym bytes = "8 word list"

datatype error = TypeError | EngineError | LoadError | FetchError

subsection \<open>GhostscriptEngine\<close>

text \<open>
  \<open>module\<close> is \<open>None\<close> for \<open>null\<close> and \<open>Some k\<close> for the \<open>k\<close>-th instance that
  \<open>loadWASM\<close> delivered; \<open>loads\<close> counts the instances delivered so far, so that a
  reinitialisation is visible as a new instance number.
\<close>

record engine =
  module :: "nat option"
  compressionCount :: nat
  loads :: nat

definition engine_new :: engine where
  "engine_new = \<lparr> module = None, compressionCount = 0, loads = 0 \<rparr>"

text \<open>The guard of \<open>init\<close>: \<open>forceReinit || !this.module || this.compressionCount >= 3\<close>.\<close>

definition reinit_due :: "bool \<Rightarrow> engine \<Rightarrow> bool" where
  "reinit_due forceReinit e \<longleftrightarrow> forceReinit \<or> module e = None \<or> compressionCount e \<ge> 3"

text \<open>
  \<open>GhostscriptEngine.init(forceReinit)\<close>; \<open>load_ok\<close> tells whether the awaited \<open>loadWASM()\<close> resolves. When it
  rejects, the exception leaves \<open>init\<close> before either field is assigned.
\<close>

definition GhostscriptEngine_init :: "bool \<Rightarrow> bool \<Rightarrow> engine \<Rightarrow> error + engine" where
  "GhostscriptEngine_init forceReinit load_ok e =
     (if reinit_due forceReinit e then
        (if load_ok
         then Inr (e\<lparr> module := Some (Suc (loads e)), compressionCount := 0, loads := Suc (loads e) \<rparr>)
         else Inl LoadError)
      else Inr e)"

text \<open>
  Command-line arguments: a fixed string, or a template with the number interpolated.
\<close>

datatype arg = A string | AN string int

text \<open>
  What \<open>qualityMap[quality] ?? 150\<close> can yield: a number, the string \<open>'original'\<close>, or a
  member inherited from \<open>Object.prototype\<close> (a function or an object, named here by its key).
\<close>

datatype jsval = Num int | Str string | Inherited string

definition buildArgs :: "jsval \<Rightarrow> arg list" where
  "buildArgs quality =
     [A ''-sDEVICE=pdfwrite'', A ''-dCompatibilityLevel=1.4''] @
     (case quality of
        Num n \<Rightarrow>
          [AN ''-r'' n,
           A ''-dDownsampleColorImages=true'',
           A ''-dDownsampleGrayImages=true'',
           A ''-dDownsampleMonoImages=true'',
           A ''-dColorImageDownsampleType=/Bicubic'',
           A ''-dGrayImageDownsampleType=/Bicubic'',
           A ''-dMonoImageDownsampleType=/Bicubic'',
           AN ''-dColorImageResolution='' n,
           AN ''-dGrayImageResolution='' n,
           AN ''-dMonoImageResolution='' n,
           A ''-dColorImageDownsampleThreshold=1.0'',
           A ''-dGrayImageDownsampleThreshold=1.0'',
           A ''-dMonoImageDownsampleThreshold=1.0'',
           A ''-dAutoFilterColorImages=false'',
           A ''-dAutoFilterGrayImages=false'',
           A ''-dColorImageFilter=/DCTEncode'',
           A ''-dGrayImageFilter=/DCTEncode'',
           A ''-dCompressPages=true'',
           A ''-dCompressFonts=true'']
      | _ \<Rightarrow> []) @
     [A ''-dPDFSETTINGS=/printer'', A ''-dNOPAUSE'', A ''-dQUIET'', A ''-dBATCH'',
      A ''-sOutputFile=output.pdf'', A ''input.pdf'']"

text \<open>
  \<open>GhostscriptEngine.compress(pdfData, quality)\<close>. The input file is written before the \<open>try\<close> block; a
  \<open>null\<close> module makes that statement throw a \<open>TypeError\<close> with the state untouched. The
  \<open>try\<close> block (\<open>callMain\<close> on \<open>buildArgs quality\<close>, then \<open>readFile\<close>) is the call into
  the opaque binary: \<open>run\<close> is \<open>Some output\<close> when it returns and \<open>None\<close> when it
  throws. Both branches unlink the two staging files, ignoring errors.
\<close>

definition GhostscriptEngine_compress :: "bytes \<Rightarrow> jsval \<Rightarrow> bytes option \<Rightarrow> engine \<Rightarrow> (error + bytes) \<times> engine" where
  "GhostscriptEngine_compress pdfData quality run e =
     (case module e of
        None \<Rightarrow> (Inl TypeError, e)
      | Some m \<Rightarrow>
          (case run of
             Some output \<Rightarrow> (Inr output, e\<lparr> compressionCount := compressionCount e + 1 \<rparr>)
           | None \<Rightarrow> (Inl EngineError, e\<lparr> compressionCount := 999 \<rparr>)))"

subsection \<open>PDFCompressionWorker\<close>

definition qualityMap :: "(string \<times> jsval) list" where
  "qualityMap =
     [(''low'', Num 100), (''medium'', Num 150), (''good'', Num 200),
      (''high'', Num 250), (''best'', Num 300), (''original'', Str ''original'')]"

text \<open>
  \<open>qualityMap\<close> is an object literal, so a property read that misses its own keys goes on
  to \<open>Object.prototype\<close>. These are the keys found there (ECMAScript, with Annex B).
\<close>

definition object_prototype_keys :: "string list" where
  "object_prototype_keys =
     [''constructor'', ''hasOwnProperty'', ''isPrototypeOf'', ''propertyIsEnumerable'',
      ''toLocaleString'', ''toString'', ''valueOf'', ''__proto__'',
      ''__defineGetter__'', ''__defineSetter__'', ''__lookupGetter__'', ''__lookupSetter__'']"

text \<open>The property read \<open>qualityMap[quality]\<close>; \<open>None\<close> is \<open>undefined\<close>.\<close>

definition qualityMap_get :: "string \<Rightarrow> jsval option" where
  "qualityMap_get quality =
     (case map_of qualityMap quality of
        Some v \<Rightarrow> Some v
      | None \<Rightarrow> (if quality \<in> set object_prototype_keys then Some (Inherited quality) else None))"

definition parseQuality :: "string \<Rightarrow> int option \<Rightarrow> jsval" where
  "parseQuality quality customDPI =
     (case qualityMap_get quality of Some v \<Rightarrow> v | None \<Rightarrow> Num 150)"

datatype reply =
  Success nat bytes nat nat
| Failure nat error

text \<open>
  \<open>createResult(messageId, output, originalSize)\<close>: the blob behind \<open>compressedURL\<close>
  holds \<open>output\<close>; \<open>output.length || output.byteLength\<close> is the number of octets.
\<close>

definition createResult :: "nat \<Rightarrow> bytes \<Rightarrow> nat \<Rightarrow> reply" where
  "createResult messageId output originalSize =
     Success messageId output originalSize (length output)"

text \<open>
  \<open>process({messageId, psDataURL, quality, customDPI})\<close>. \<open>fetched\<close> is the result of
  \<open>fetchPDF\<close> (\<open>None\<close> when the fetch rejects); \<open>load_ok\<close> and \<open>run\<close> are the outcomes of
  \<open>loadWASM\<close> and of the engine run, consulted only where the code reaches them. Every
  exception ends in the \<open>catch\<close> that posts the error reply.
\<close>

text \<open>
  One engine invocation, as \<open>process\<close> performs it:
  \<open>await this.engine.init(); const output = this.engine.compress(buffer, parsedQuality)\<close>.
\<close>

definition invoke :: "bytes \<Rightarrow> jsval \<Rightarrow> bool \<Rightarrow> bytes option \<Rightarrow> engine \<Rightarrow> (error + bytes) \<times> engine" where
  "invoke buffer parsedQuality load_ok run e =
     (case GhostscriptEngine_init False load_ok e of
        Inl err \<Rightarrow> (Inl err, e)
      | Inr e1 \<Rightarrow> GhostscriptEngine_compress buffer parsedQuality run e1)"

definition process ::
  "nat \<Rightarrow> bytes option \<Rightarrow> string \<Rightarrow> int option \<Rightarrow> bool \<Rightarrow> bytes option \<Rightarrow> engine \<Rightarrow> reply \<times> engine" where
  "process messageId fetched quality customDPI load_ok run e =
     (case fetched of
        None \<Rightarrow> (Failure messageId FetchError, e)
      | Some buffer \<Rightarrow>
          (let parsedQuality = parseQuality quality customDPI in
           if parsedQuality = Str ''original''
           then (createResult messageId buffer (length buffer), e)
           else
             (case invoke buffer parsedQuality load_ok run e of
                (Inl err, e2) \<Rightarrow> (Failure messageId err, e2)
              | (Inr output, e2) \<Rightarrow>
                  (if length output \<ge> length buffer
                   then (createResult messageId buffer (length buffer), e2)
                   else (createResult messageId output (length buffer), e2)))))"


section \<open>Foreground page (pdfapi.js)\<close>

type_synonym url = nat

subsection \<open>CompressionWorker: the job queue in front of the worker\<close>

text \<open>
  A queued job keeps the arguments of \<open>compress\<close> and the \<open>resolve\<close>/\<open>reject\<close> pair
  of the promise that \<open>compress\<close> returned. Promises are numbered in the order
  \<open>compress\<close> creates them; the number stands for the pair.
\<close>

record job =
  fileBuffer :: bytes
  job_quality :: string
  customDPI :: "int option"
  promise :: nat

text \<open>
  The worker's reply without its \<open>messageId\<close>: status \<open>'success'\<close> with
  \<open>compressedURL\<close>, \<open>originalSize\<close> and \<open>compressedSize\<close>, or any other status.
\<close>

datatype wmsg = Done url nat nat | Err

text \<open>
  What the manager does to the outside: the calls on the \<open>Worker\<close> object, on
  \<open>URL\<close> and on the promises' handlers, in the order they happen. \<open>Submit\<close> marks a
  call of \<open>compress\<close>.
\<close>

datatype cw_effect =
  NewWorker
| Terminate
| Submit job
| PostMessage nat job
| Resolve nat bytes nat nat
| Reject nat
| Warn nat
| CreateBlobURL url
| RevokeBlobURL url

text \<open>
  An \<open>onmessage\<close> call that has reached \<open>await fetch(compressedURL)\<close>: the promise it
  will settle, \<open>blobURL\<close>, \<open>compressedURL\<close>, \<open>originalSize\<close>, \<open>compressedSize\<close>.
\<close>

type_synonym handler = "nat \<times> url \<times> url \<times> nat \<times> nat"

text \<open>
  The first five fields are the object's own (\<open>worker\<close> tells whether \<open>this.worker\<close> is
  a \<open>Worker\<close> or \<open>null\<close>; \<open>pendingRequests\<close> is the \<open>Map\<close>, in insertion order).
  The others describe the surroundings: \<open>inbox\<close> holds the messages posted to the live
  worker and not answered yet (id and job), \<open>fetching\<close> the suspended \<open>onmessage\<close> calls,
  \<open>promises\<close> and \<open>urls\<close> count the promises and object URLs created, and
  \<open>trace\<close> is the list of effects so far.
\<close>

record cw =
  worker :: bool
  messageId :: nat
  pendingRequests :: "(nat \<times> (nat \<times> url)) list"
  isProcessing :: bool
  queue :: "job list"
  inbox :: "(nat \<times> job) list"
  fetching :: "handler list"
  promises :: nat
  urls :: nat
  trace :: "cw_effect list"

definition CompressionWorker_new :: cw where
  "CompressionWorker_new =
     \<lparr> worker = False, messageId = 0, pendingRequests = [], isProcessing = False, queue = [],
       inbox = [], fetching = [], promises = 0, urls = 0, trace = [] \<rparr>"

definition CompressionWorker_init :: "cw \<Rightarrow> cw" where
  "CompressionWorker_init s =
     (if \<not> worker s then s\<lparr> worker := True, trace := trace s @ [NewWorker] \<rparr> else s)"

text \<open>
  \<open>reset()\<close>. \<open>terminate()\<close> stops the worker and discards what it had not delivered,
  so the inbox is empty afterwards. An \<open>onmessage\<close> call already suspended in
  \<open>fetching\<close> belongs to the page and is not touched.
\<close>

definition CompressionWorker_reset :: "cw \<Rightarrow> cw" where
  "CompressionWorker_reset s =
     (let s1 = (if worker s
                then s\<lparr> worker := False, inbox := [], trace := trace s @ [Terminate] \<rparr>
                else s)
      in s1\<lparr> messageId := 0, pendingRequests := [], isProcessing := False, queue := [] \<rparr>)"

text \<open>
  \<open>executeCompress\<close>. The result's first component is \<open>False\<close> when
  \<open>this.worker.postMessage\<close> throws because \<open>this.worker\<close> is \<open>null\<close>; the assignments
  before that statement have happened by then.
\<close>

definition executeCompress :: "job \<Rightarrow> cw \<Rightarrow> bool \<times> cw" where
  "executeCompress j s =
     (let mid = messageId s + 1;
          blobURL = urls s + 1;
          s1 = s\<lparr> isProcessing := True, messageId := mid, urls := blobURL,
                   pendingRequests := AList.update mid (promise j, blobURL) (pendingRequests s),
                   trace := trace s @ [CreateBlobURL blobURL] \<rparr>
      in if worker s1
         then (True, s1\<lparr> inbox := inbox s1 @ [(mid, j)], trace := trace s1 @ [PostMessage mid j] \<rparr>)
         else (False, s1))"

text \<open>
  \<open>processNext\<close> is the last statement wherever it is called, so an exception of
  \<open>executeCompress\<close> ends the caller with nothing further done.
\<close>

definition processNext :: "cw \<Rightarrow> cw" where
  "processNext s =
     (let s1 = s\<lparr> isProcessing := False \<rparr>
      in case queue s1 of
           [] \<Rightarrow> s1
         | next # rest \<Rightarrow> snd (executeCompress next (s1\<lparr> queue := rest \<rparr>)))"

text \<open>
  \<open>compress(fileBuffer, quality, customDPI)\<close> returns the new promise. An exception in the
  promise's executor rejects the promise.
\<close>

definition CompressionWorker_compress :: "bytes \<Rightarrow> string \<Rightarrow> int option \<Rightarrow> cw \<Rightarrow> nat \<times> cw" where
  "CompressionWorker_compress buf q dpi s =
     (let p = promises s + 1;
          j = \<lparr> fileBuffer = buf, job_quality = q, customDPI = dpi, promise = p \<rparr>;
          s1 = s\<lparr> promises := p, trace := trace s @ [Submit j] \<rparr>
      in if isProcessing s1
         then (p, s1\<lparr> queue := queue s1 @ [j] \<rparr>)
         else (case executeCompress j s1 of
                 (True, s2) \<Rightarrow> (p, s2)
               | (False, s2) \<Rightarrow> (p, s2\<lparr> trace := trace s2 @ [Reject p] \<rparr>)))"

text \<open>
  \<open>worker.onmessage\<close>, up to its first \<open>await\<close>. The reply leaves the inbox. An unknown id
  is warned about and the queue goes on; an error status rejects at once; a success status
  suspends the call at \<open>await fetch(compressedURL)\<close>.
\<close>

definition onmessage :: "nat \<Rightarrow> wmsg \<Rightarrow> cw \<Rightarrow> cw" where
  "onmessage mid msg s =
     (let s0 = s\<lparr> inbox := filter (\<lambda>m. fst m \<noteq> mid) (inbox s) \<rparr>
      in case map_of (pendingRequests s0) mid of
           None \<Rightarrow> processNext (s0\<lparr> trace := trace s0 @ [Warn mid] \<rparr>)
         | Some (p, blobURL) \<Rightarrow>
             (let s1 = s0\<lparr> pendingRequests := AList.delete mid (pendingRequests s0) \<rparr>
              in case msg of
                   Done compressedURL originalSize compressedSize \<Rightarrow>
                     s1\<lparr> fetching := fetching s1 @ [(p, blobURL, compressedURL, originalSize, compressedSize)] \<rparr>
                 | Err \<Rightarrow>
                     processNext (s1\<lparr> trace := trace s1 @ [RevokeBlobURL blobURL, Reject p] \<rparr>)))"

text \<open>
  The rest of \<open>onmessage\<close> for a suspended call \<open>h\<close>: \<open>fetched\<close> is the buffer read from
  \<open>compressedURL\<close>, or \<open>None\<close> when \<open>fetch\<close> or \<open>arrayBuffer\<close> rejects.
\<close>

definition onmessage_fetched :: "handler \<Rightarrow> bytes option \<Rightarrow> cw \<Rightarrow> cw" where
  "onmessage_fetched h fetched s =
     (case h of (p, blobURL, compressedURL, originalSize, compressedSize) \<Rightarrow>
        (let s1 = s\<lparr> fetching := remove1 h (fetching s) \<rparr>
         in case fetched of
              Some buffer \<Rightarrow>
                processNext (s1\<lparr> trace := trace s1 @
                  [RevokeBlobURL blobURL, RevokeBlobURL compressedURL,
                   Resolve p buffer originalSize compressedSize] \<rparr>)
            | None \<Rightarrow>
                processNext (s1\<lparr> trace := trace s1 @ [RevokeBlobURL blobURL, Reject p] \<rparr>)))"

text \<open>
  Everything that can happen to the manager: calls of its three methods, a reply of the
  worker, and the completion of a suspended \<open>onmessage\<close> call. A reply can only come for a
  message in the inbox, a completion only for a call that is suspended.
\<close>

datatype cw_event =
  Init
| Compress bytes string "int option"
| Message nat wmsg
| Fetched handler "bytes option"
| Reset

fun cw_enabled :: "cw_event \<Rightarrow> cw \<Rightarrow> bool" where
  "cw_enabled (Message mid msg) s \<longleftrightarrow> mid \<in> fst ` set (inbox s)"
| "cw_enabled (Fetched h fetched) s \<longleftrightarrow> h \<in> set (fetching s)"
| "cw_enabled _ s \<longleftrightarrow> True"

fun cw_step :: "cw_event \<Rightarrow> cw \<Rightarrow> cw" where
  "cw_step Init s = CompressionWorker_init s"
| "cw_step (Compress buf q dpi) s = snd (CompressionWorker_compress buf q dpi s)"
| "cw_step (Message mid msg) s = onmessage mid msg s"
| "cw_step (Fetched h fetched) s = onmessage_fetched h fetched s"
| "cw_step Reset s = CompressionWorker_reset s"

fun cw_run :: "cw_event list \<Rightarrow> cw \<Rightarrow> cw" where
  "cw_run [] s = s"
| "cw_run (e # es) s = cw_run es (cw_step e s)"

fun cw_valid :: "cw_event list \<Rightarrow> cw \<Rightarrow> bool" where
  "cw_valid [] s \<longleftrightarrow> True"
| "cw_valid (e # es) s \<longleftrightarrow> cw_enabled e s \<and> cw_valid es (cw_step e s)"

text \<open>Readings of a trace: the jobs submitted, the jobs posted, the promises settled.\<close>

fun submitted :: "cw_effect list \<Rightarrow> job list" where
  "submitted [] = []"
| "submitted (Submit j # tr) = j # submitted tr"
| "submitted (_ # tr) = submitted tr"

fun posted :: "cw_effect list \<Rightarrow> job list" where
  "posted [] = []"
| "posted (PostMessage mid j # tr) = j # posted tr"
| "posted (_ # tr) = posted tr"

fun settled :: "cw_effect list \<Rightarrow> nat list" where
  "settled [] = []"
| "settled (Resolve p buf osz csz # tr) = p # settled tr"
| "settled (Reject p # tr) = p # settled tr"
| "settled (_ # tr) = settled tr"

text \<open>A job is in flight from its \<open>postMessage\<close> until its promise settles.\<close>

definition in_flight :: "cw_effect list \<Rightarrow> job list" where
  "in_flight tr = filter (\<lambda>j. promise j \<notin> set (settled tr)) (posted tr)"

text \<open>The promises of the jobs the worker has been sent and has not answered.\<close>

definition awaiting_reply :: "cw \<Rightarrow> nat list" where
  "awaiting_reply s = map (promise \<circ> snd) (inbox s)"

text \<open>
  The three situations of a manager that is never reset: idle; one job with the worker; one
  job whose reply is being fetched. In each, the jobs posted and the queue make up the jobs
  submitted, promises are numbered in submission order, and the promises of the posted jobs
  are the settled ones followed by the current one.
\<close>

definition cw_inv :: "cw \<Rightarrow> bool" where
  "cw_inv s \<longleftrightarrow>
     worker s
   \<and> posted (trace s) @ queue s = submitted (trace s)
   \<and> map promise (submitted (trace s)) = [1..<Suc (promises s)]
   \<and> ((\<not> isProcessing s \<and> queue s = [] \<and> inbox s = [] \<and> pendingRequests s = []
        \<and> fetching s = [] \<and> map promise (posted (trace s)) = settled (trace s))
      \<or> (\<exists>j u. isProcessing s \<and> inbox s = [(messageId s, j)]
            \<and> pendingRequests s = [(messageId s, (promise j, u))] \<and> fetching s = []
            \<and> map promise (posted (trace s)) = settled (trace s) @ [promise j])
      \<or> (\<exists>h. isProcessing s \<and> inbox s = [] \<and> pendingRequests s = [] \<and> fetching s = [h]
            \<and> map promise (posted (trace s)) = settled (trace s) @ [fst h]))"


text \<open>
  What holds of the manager in every state it can reach, resets included: the promises held
  by the queue, by the messages with the worker and by the suspended \<open>onmessage\<close> calls
  are pairwise different, have been created, and are not settled; each message with the
  worker has its entry in \<open>pendingRequests\<close>.
\<close>

definition cw_refs :: "cw \<Rightarrow> nat list" where
  "cw_refs s = map promise (queue s) @ awaiting_reply s @ map fst (fetching s)"

definition cw_wf :: "cw \<Rightarrow> bool" where
  "cw_wf s \<longleftrightarrow>
     distinct (map fst (inbox s))
   \<and> (\<forall>m \<in> set (inbox s). \<exists>u. map_of (pendingRequests s) (fst m) = Some (promise (snd m), u))
   \<and> (\<forall>k \<in> fst ` set (pendingRequests s). k \<le> messageId s)
   \<and> (\<not> worker s \<longrightarrow> inbox s = [])
   \<and> distinct (cw_refs s)
   \<and> (\<forall>p \<in> set (cw_refs s). p \<le> promises s \<and> p \<notin> set (settled (trace s)))
   \<and> (\<forall>p \<in> set (settled (trace s)). p \<le> promises s)"

text \<open>
  After a reset at a state with \<open>n\<close> promises, settled promises \<open>S\<close> and suspended
  calls for the promises \<open>F\<close>: whatever the manager still holds or settles is in \<open>F\<close>
  or was created later.
\<close>

definition cw_later :: "nat set \<Rightarrow> nat \<Rightarrow> nat set \<Rightarrow> cw \<Rightarrow> bool" where
  "cw_later F n S s \<longleftrightarrow>
     n \<le> promises s
   \<and> promise ` set (queue s) \<union> (fst \<circ> snd) ` set (pendingRequests s) \<union> fst ` set (fetching s)
       \<subseteq> F \<union> {k. n < k}
   \<and> set (settled (trace s)) \<subseteq> S \<union> F \<union> {k. n < k}"

subsection \<open>PreviewCache\<close>

text \<open>
  The cache is a \<open>Map\<close> from quality name to \<open>{blob, url}\<close>, kept here as the list of
  its entries in insertion order (the order \<open>forEach\<close> visits them). A blob is its octets;
  an object URL is the number \<open>URL.createObjectURL\<close> gave it.
\<close>

type_synonym entry = "bytes \<times> url"

definition PreviewCache_has :: "string \<Rightarrow> (string \<times> entry) list \<Rightarrow> bool" where
  "PreviewCache_has key c \<longleftrightarrow> map_of c key \<noteq> None"

definition PreviewCache_get :: "string \<Rightarrow> (string \<times> entry) list \<Rightarrow> entry option" where
  "PreviewCache_get key c = map_of c key"

text \<open>\<open>set(key, blob, url)\<close> is the one statement \<open>this.cache.set(key, { blob, url })\<close>.\<close>

definition PreviewCache_set :: "string \<Rightarrow> bytes \<Rightarrow> url \<Rightarrow> (string \<times> entry) list \<Rightarrow> (string \<times> entry) list" where
  "PreviewCache_set key blob u c = AList.update key (blob, u) c"

text \<open>
  \<open>clear()\<close> passes the URL of every entry to \<open>URL.revokeObjectURL\<close> and empties the
  map: the result is the list of URLs revoked, and the new map.
\<close>

definition PreviewCache_clear :: "(string \<times> entry) list \<Rightarrow> url list \<times> (string \<times> entry) list" where
  "PreviewCache_clear c = (map (snd \<circ> snd) c, [])"

subsection \<open>PDFCompressor\<close>

text \<open>A \<open>File\<close>: the object's identity, its MIME type and its content.\<close>

record file_obj =
  file_id :: nat
  file_type :: string
  file_bytes :: bytes

text \<open>The second argument of \<open>unlockQuality\<close>: a formatted size or one of two fixed texts.\<close>

datatype hint = SizeText nat | ClickToLoad | ErrorRetry

text \<open>
  What the controller does to its collaborators, in order: calls on the job queue
  (\<open>this.worker\<close>), on \<open>URL\<close>, on the renderer and on the page. \<open>Bump\<close>,
  \<open>PendingAdd\<close>, \<open>PendingDelete\<close> and \<open>CacheWrite\<close> mark the places where the
  controller changes its own counter, pending set and cache, so that their order can be read
  off the list.
\<close>

datatype effect =
  Bump
| WorkerInit
| WorkerReset
| WorkerCompress bytes string
| CreateObjectURL url
| RevokeObjectURL url
| PendingAdd string
| PendingDelete string
| CacheWrite string url
| ShowPreviewLoading
| HidePreviewLoading
| Show string
| Hide string
| RendererLoad url
| RendererClear
| UpdatePreviewSize nat
| UnlockQuality string hint
| LockAllQualities
| ResetQualityHints
| SetQualityActive string
| UpdateLoading string nat
| Alert string

text \<open>The effects that put a result in front of the user.\<close>

fun presentation :: "effect \<Rightarrow> bool" where
  "presentation (Show x) = True"
| "presentation (RendererLoad u) = True"
| "presentation (UpdatePreviewSize n) = True"
| "presentation (UnlockQuality q h) = True"
| "presentation _ = False"

fun bumps :: "effect list \<Rightarrow> nat" where
  "bumps [] = 0"
| "bumps (Bump # es) = Suc (bumps es)"
| "bumps (_ # es) = bumps es"

text \<open>The arguments of the calls of \<open>this.worker.compress\<close>, in order.\<close>

fun compress_calls :: "effect list \<Rightarrow> (bytes \<times> string) list" where
  "compress_calls [] = []"
| "compress_calls (WorkerCompress buf q # es) = (buf, q) # compress_calls es"
| "compress_calls (_ # es) = compress_calls es"

text \<open>
  The fields of the object that the scheduling uses (\<open>cur_file\<close> is \<open>this.file\<close>;
  \<open>compressedBlob\<close>, which only
  \<open>save\<close> and \<open>download\<close> touch, is left out), the count of object URLs created so
  far, and the list of effects so far. \<open>previewRequestId\<close> is a JavaScript number; it stays
  far below \<open>2^53\<close>, where \<open>++\<close> would stop changing it, and is a natural number here.
\<close>

record compressor =
  cur_file :: "file_obj option"
  quality :: string
  previewRequestId :: nat
  preloadPaused :: bool
  pendingQualities :: "string set"
  isPreloading :: bool
  cache :: "(string \<times> entry) list"
  object_urls :: nat
  effects :: "effect list"

definition PDFCompressor_new :: compressor where
  "PDFCompressor_new =
     \<lparr> cur_file = None, quality = ''original'', previewRequestId = 0, preloadPaused = False,
       pendingQualities = {}, isPreloading = False, cache = [], object_urls = 0, effects = [] \<rparr>"

text \<open>
  An \<open>async\<close> method runs until its next \<open>await\<close>. What is left of it is a continuation:
  the place it waits at, with the local variables it still needs. \<open>LQ\<close> is
  \<open>loadQualityWithPriority\<close>, \<open>SC\<close> is \<open>showCachedPreview\<close>, \<open>PL\<close> is
  \<open>preloadAllQualities\<close> and \<open>HF\<close> is \<open>handleFile\<close>.
\<close>

datatype susp =
  Finished
| LQ_arrayBuffer nat string
| LQ_compress nat string
| LQ_load nat string bytes url
| SC_load nat
| PL_arrayBuffer file_obj
| PL_compress file_obj bytes string "string list"
| PL_delay file_obj bytes "string list"
| HF_delay1 file_obj
| HF_load file_obj
| HF_delay2

text \<open>
  What an awaited promise delivers: a buffer, nothing in particular, or a rejection.
\<close>

datatype answer = Bytes bytes | Ok | Failed

definition emit :: "effect list \<Rightarrow> compressor \<Rightarrow> compressor" where
  "emit es st = st\<lparr> effects := effects st @ es \<rparr>"

definition createObjectURL :: "compressor \<Rightarrow> url \<times> compressor" where
  "createObjectURL st =
     (let u = Suc (object_urls st) in (u, emit [CreateObjectURL u] (st\<lparr> object_urls := u \<rparr>)))"

text \<open>The closure \<open>isOutdated\<close> of \<open>loadQualityWithPriority\<close>.\<close>

definition isOutdated :: "nat \<Rightarrow> compressor \<Rightarrow> bool" where
  "isOutdated requestId st \<longleftrightarrow> requestId \<noteq> previewRequestId st"

definition validateFile :: "file_obj \<Rightarrow> bool" where
  "validateFile f \<longleftrightarrow>
     file_type f = ''application/pdf'' \<and> int (length (file_bytes f)) \<le> 50 * 1024 * 1024"

definition qualities :: "string list" where
  "qualities = [''low'', ''medium'', ''fair'', ''good'', ''high'']"

text \<open>The helper \<open>unlockRemaining\<close> of \<open>preloadAllQualities\<close>.\<close>

definition unlockRemaining :: "compressor \<Rightarrow> compressor" where
  "unlockRemaining st =
     emit (map (\<lambda>q. UnlockQuality q ClickToLoad)
             (filter (\<lambda>q. \<not> PreviewCache_has q (cache st)) qualities)) st"

text \<open>
  The \<open>for\<close> loop of \<open>preloadAllQualities\<close> from its head, over the levels still to
  visit, up to the next \<open>await\<close> or the end of the method.
\<close>

fun preload_loop :: "file_obj \<Rightarrow> bytes \<Rightarrow> string list \<Rightarrow> compressor \<Rightarrow> compressor \<times> susp" where
  "preload_loop currentFile fileBuf [] st = (st\<lparr> isPreloading := False \<rparr>, Finished)"
| "preload_loop currentFile fileBuf (q # rest) st =
     (if cur_file st \<noteq> Some currentFile
      then ((unlockRemaining st)\<lparr> isPreloading := False \<rparr>, Finished)
      else if preloadPaused st
      then ((unlockRemaining st)\<lparr> isPreloading := False \<rparr>, Finished)
      else case PreviewCache_get q (cache st) of
             Some cached \<Rightarrow>
               preload_loop currentFile fileBuf rest
                 (emit [UnlockQuality q (SizeText (length (fst cached)))] st)
           | None \<Rightarrow>
               if q \<in> pendingQualities st
               then preload_loop currentFile fileBuf rest st
               else (emit [PendingAdd q, WorkerCompress fileBuf q]
                       (st\<lparr> pendingQualities := insert q (pendingQualities st) \<rparr>),
                     PL_compress currentFile fileBuf q rest))"

text \<open>
  \<open>preloadAllQualities\<close> up to \<open>await currentFile.arrayBuffer()\<close>. Without a file that
  call throws, and the method ends with \<open>isPreloading\<close> left set.
\<close>

definition preloadAllQualities :: "compressor \<Rightarrow> compressor \<times> susp" where
  "preloadAllQualities st =
     (if isPreloading st then (st, Finished)
      else if list_all (\<lambda>q. PreviewCache_has q (cache st)) qualities then (st, Finished)
      else (let st1 = emit [WorkerInit] (st\<lparr> isPreloading := True \<rparr>)
            in case cur_file st of
                 None \<Rightarrow> (st1, Finished)
               | Some currentFile \<Rightarrow> (st1, PL_arrayBuffer currentFile)))"

text \<open>
  The end of \<open>showCachedPreview\<close>, after its \<open>try\<close> statement, and the method up to
  \<open>await this.renderer.load(cached.url)\<close>. The size remembered for
  \<open>updatePreviewSize\<close> is the blob's (for an empty blob the page passes \<open>cached.size\<close>,
  which is undefined; the text shown plays no part below).
\<close>

definition showCachedPreview_end :: "compressor \<Rightarrow> compressor \<times> susp" where
  "showCachedPreview_end st = preloadAllQualities (st\<lparr> preloadPaused := False \<rparr>)"

definition showCachedPreview :: "string \<Rightarrow> compressor \<Rightarrow> compressor \<times> susp" where
  "showCachedPreview cacheKey st =
     (case PreviewCache_get cacheKey (cache st) of
        None \<Rightarrow> showCachedPreview_end st
      | Some cached \<Rightarrow>
          (emit [Show ''previewSection'', Show ''compressBtn'', RendererLoad (snd cached)] st,
           SC_load (length (fst cached))))"

text \<open>The \<open>catch\<close> clause of \<open>loadQualityWithPriority\<close>.\<close>

definition loadQuality_catch :: "nat \<Rightarrow> compressor \<Rightarrow> compressor \<times> susp" where
  "loadQuality_catch requestId st =
     (emit (HidePreviewLoading #
            (if \<not> isOutdated requestId st then [Alert ''Preview generation failed''] else [])) st,
      Finished)"

definition loadQualityWithPriority :: "compressor \<Rightarrow> compressor \<times> susp" where
  "loadQualityWithPriority st =
     (let requestId = previewRequestId st;
          q = quality st;
          st1 = emit [ShowPreviewLoading, WorkerInit] st
      in case cur_file st1 of
           None \<Rightarrow> loadQuality_catch requestId st1
         | Some f \<Rightarrow> (st1, LQ_arrayBuffer requestId q))"

definition handleQualityChange :: "compressor \<Rightarrow> compressor \<times> susp" where
  "handleQualityChange st =
     (let cacheKey = quality st;
          st1 = emit [Bump, HidePreviewLoading]
                  (st\<lparr> preloadPaused := True, previewRequestId := previewRequestId st + 1 \<rparr>)
      in if PreviewCache_has cacheKey (cache st1)
         then showCachedPreview cacheKey st1
         else loadQualityWithPriority st1)"

text \<open>
  The click listener of a quality option that the page does not show as locked.
\<close>

definition click :: "string \<Rightarrow> compressor \<Rightarrow> compressor \<times> susp" where
  "click q st =
     (let st1 = emit [SetQualityActive q] st\<lparr> quality := q \<rparr>
      in if cur_file st1 \<noteq> None then handleQualityChange st1 else (st1, Finished))"

text \<open>
  \<open>handleFile\<close> up to \<open>await Utils.delay(100)\<close>; the argument is \<open>files[0]\<close>.
  \<open>validateFile\<close> shows the alert itself when it returns false.
\<close>

definition handleFile :: "file_obj option \<Rightarrow> compressor \<Rightarrow> compressor \<times> susp" where
  "handleFile chosen st =
     (case chosen of
        None \<Rightarrow> (st, Finished)
      | Some f \<Rightarrow>
          if \<not> validateFile f
          then (emit [Alert (if file_type f \<noteq> ''application/pdf''
                            then ''Please select a PDF file''
                            else ''File size exceeds 50MB limit'')] st,
                Finished)
          else
            (let cleared = PreviewCache_clear (cache st);
                 st1 = st\<lparr> previewRequestId := previewRequestId st + 1, preloadPaused := False,
                          pendingQualities := {}, isPreloading := False, cur_file := Some f,
                          cache := snd cleared, quality := ''original'' \<rparr>
             in (emit ([Bump, WorkerReset] @ map RevokeObjectURL (fst cleared) @
                       [RendererClear, HidePreviewLoading, LockAllQualities, ResetQualityHints,
                        SetQualityActive ''original'', Show ''loadingSection'', Hide ''fileInfo'',
                        Hide ''compressionOptions'', Hide ''resultSection'', Hide ''progressSection'',
                        Hide ''previewSection'', Hide ''compressBtn'',
                        UpdateLoading ''Loading file...'' 50]) st1,
                 HF_delay1 f)))"

definition PDFCompressor_reset :: "compressor \<Rightarrow> compressor" where
  "PDFCompressor_reset st =
     (let cleared = PreviewCache_clear (cache st);
          st1 = st\<lparr> previewRequestId := previewRequestId st + 1, preloadPaused := False,
                   pendingQualities := {}, isPreloading := False, cache := snd cleared,
                   cur_file := None, quality := ''original'' \<rparr>
      in emit ([Bump] @ map RevokeObjectURL (fst cleared) @
               [RendererClear, Hide ''loadingSection'', Hide ''fileInfo'', Hide ''compressionOptions'',
                Hide ''compressBtn'', Hide ''progressSection'', Hide ''resultSection'',
                Hide ''previewSection'', LockAllQualities, ResetQualityHints,
                SetQualityActive ''original'']) st1)"

text \<open>
  A continuation goes on with what its \<open>await\<close> delivered. A rejection is an exception at
  the \<open>await\<close>: it goes to the enclosing \<open>catch\<close>, or ends the method when there is none.
\<close>

fun resume :: "susp \<Rightarrow> answer \<Rightarrow> compressor \<Rightarrow> compressor \<times> susp" where
  "resume Finished a st = (st, Finished)"
| "resume (LQ_arrayBuffer requestId q) (Bytes fileBuf) st =
     (if isOutdated requestId st then (emit [HidePreviewLoading] st, Finished)
      else (emit [WorkerCompress fileBuf q] st, LQ_compress requestId q))"
| "resume (LQ_arrayBuffer requestId q) a st = loadQuality_catch requestId st"
| "resume (LQ_compress requestId q) (Bytes buffer) st =
     (let created = createObjectURL st;
          u = fst created;
          st1 = emit [CacheWrite q u]
                  ((snd created)\<lparr> cache := PreviewCache_set q buffer u (cache (snd created)) \<rparr>)
      in if isOutdated requestId st1 then (emit [HidePreviewLoading] st1, Finished)
         else (emit [Show ''previewSection'', Show ''compressBtn'', RendererLoad u] st1,
               LQ_load requestId q buffer u))"
| "resume (LQ_compress requestId q) a st = loadQuality_catch requestId st"
| "resume (LQ_load requestId q blob u) Failed st = loadQuality_catch requestId st"
| "resume (LQ_load requestId q blob u) a st =
     (if isOutdated requestId st then (emit [HidePreviewLoading] st, Finished)
      else preloadAllQualities
             ((emit [UpdatePreviewSize (length blob), HidePreviewLoading,
                     UnlockQuality q (SizeText (length blob))] st)\<lparr> preloadPaused := False \<rparr>))"
| "resume (SC_load n) Failed st = showCachedPreview_end st"
| "resume (SC_load n) a st = showCachedPreview_end (emit [UpdatePreviewSize n] st)"
| "resume (PL_arrayBuffer currentFile) (Bytes fileBuf) st =
     preload_loop currentFile fileBuf qualities st"
| "resume (PL_arrayBuffer currentFile) a st = (st, Finished)"
| "resume (PL_compress currentFile fileBuf q rest) (Bytes buffer) st =
     (let st1 = emit [PendingDelete q] (st\<lparr> pendingQualities := pendingQualities st - {q} \<rparr>)
      in if cur_file st1 \<noteq> Some currentFile \<or> preloadPaused st1
         then ((unlockRemaining st1)\<lparr> isPreloading := False \<rparr>, Finished)
         else (let created = createObjectURL st1;
                   u = fst created
               in (emit [CacheWrite q u, UnlockQuality q (SizeText (length buffer))]
                     ((snd created)\<lparr> cache := PreviewCache_set q buffer u (cache (snd created)) \<rparr>),
                   PL_delay currentFile fileBuf rest)))"
| "resume (PL_compress currentFile fileBuf q rest) a st =
     (emit [PendingDelete q, UnlockQuality q ErrorRetry]
        (st\<lparr> pendingQualities := pendingQualities st - {q} \<rparr>),
      PL_delay currentFile fileBuf rest)"
| "resume (PL_delay currentFile fileBuf rest) a st = preload_loop currentFile fileBuf rest st"
| "resume (HF_delay1 f) a st =
     (let created = createObjectURL st;
          u = fst created
      in (emit [CacheWrite ''original'' u, UpdateLoading ''Loading preview...'' 80,
                Show ''previewSection'', Show ''compressBtn'', RendererLoad u]
            ((snd created)\<lparr> cache := PreviewCache_set ''original'' (file_bytes f) u (cache (snd created)) \<rparr>),
          HF_load f))"
| "resume (HF_load f) Failed st = (st, Finished)"
| "resume (HF_load f) a st =
     (emit [UpdatePreviewSize (length (file_bytes f)), UpdateLoading ''Complete!'' 100] st, HF_delay2)"
| "resume HF_delay2 a st =
     preloadAllQualities (emit [Hide ''loadingSection'', Show ''fileInfo'', Show ''compressionOptions''] st)"

text \<open>
  What can happen to the controller: a click on a quality option, a file chosen, a click on
  the reset button, and a continuation going on. The second component of the state is the
  pool of continuations waiting; only a continuation in the pool can go on.
\<close>

datatype ui_event =
  Click string
| FileChosen "file_obj option"
| ResetClicked
| Resume susp answer

definition park :: "susp list \<Rightarrow> compressor \<times> susp \<Rightarrow> compressor \<times> susp list" where
  "park pool r = (fst r, (if snd r = Finished then pool else pool @ [snd r]))"

fun ui_enabled :: "ui_event \<Rightarrow> compressor \<times> susp list \<Rightarrow> bool" where
  "ui_enabled (Resume k a) s \<longleftrightarrow> k \<in> set (snd s)"
| "ui_enabled _ s \<longleftrightarrow> True"

fun ui_step :: "ui_event \<Rightarrow> compressor \<times> susp list \<Rightarrow> compressor \<times> susp list" where
  "ui_step (Click q) s = park (snd s) (click q (fst s))"
| "ui_step (FileChosen f) s = park (snd s) (handleFile f (fst s))"
| "ui_step ResetClicked s = (PDFCompressor_reset (fst s), snd s)"
| "ui_step (Resume k a) s = park (remove1 k (snd s)) (resume k a (fst s))"

fun ui_run :: "ui_event list \<Rightarrow> compressor \<times> susp list \<Rightarrow> compressor \<times> susp list" where
  "ui_run [] s = s"
| "ui_run (e # es) s = ui_run es (ui_step e s)"

fun ui_valid :: "ui_event list \<Rightarrow> compressor \<times> susp list \<Rightarrow> bool" where
  "ui_valid [] s \<longleftrightarrow> True"
| "ui_valid (e # es) s \<longleftrightarrow> ui_enabled e s \<and> ui_valid es (ui_step e s)"

text \<open>
  One \<open>async\<close> call running on its own: each \<open>await\<close> is answered by the next answer of
  the list and nothing else happens in between. With the answers used up the call stays
  suspended.
\<close>

fun drive :: "answer list \<Rightarrow> compressor \<times> susp \<Rightarrow> compressor \<times> susp" where
  "drive as (st, Finished) = (st, Finished)"
| "drive [] (st, k) = (st, k)"
| "drive (a # as) (st, k) = drive as (resume k a st)"

text \<open>
  Between two states, the generation counter has moved by exactly the number of \<open>Bump\<close>
  marks added to the effects.
\<close>

definition counted :: "compressor \<Rightarrow> compressor \<Rightarrow> bool" where
  "counted st st' \<longleftrightarrow>
     previewRequestId st' + bumps (effects st) = previewRequestId st + bumps (effects st')
   \<and> bumps (effects st) \<le> bumps (effects st')"


subsection \<open>Sample sessions\<close>

text \<open>
  A four-octet PDF, the events of loading it, and three sessions that start with them.
  Buffers handed back by the job queue are made up; they only need to differ from the input.
\<close>

definition sample_pdf :: file_obj where
  "sample_pdf = \<lparr> file_id = 1, file_type = ''application/pdf'', file_bytes = [1, 2, 3, 4] \<rparr>"

definition load_events :: "ui_event list" where
  "load_events =
     [FileChosen (Some sample_pdf), Resume (HF_delay1 sample_pdf) Ok,
      Resume (HF_load sample_pdf) Ok, Resume HF_delay2 Ok]"

text \<open>
  The preload asks for \<open>'low'\<close> and \<open>'medium'\<close> and caches both; during the pause after
  \<open>'medium'\<close> the user clicks the cached \<open>'original'\<close>, and the loop stops at its next
  check.
\<close>

definition session_pause :: "ui_event list" where
  "session_pause = load_events @
     [Resume (PL_arrayBuffer sample_pdf) (Bytes [1, 2, 3, 4]),
      Resume (PL_compress sample_pdf [1, 2, 3, 4] ''low'' [''medium'', ''fair'', ''good'', ''high'']) (Bytes [7]),
      Resume (PL_delay sample_pdf [1, 2, 3, 4] [''medium'', ''fair'', ''good'', ''high'']) Ok,
      Resume (PL_compress sample_pdf [1, 2, 3, 4] ''medium'' [''fair'', ''good'', ''high'']) (Bytes [8]),
      Click ''original'',
      Resume (PL_delay sample_pdf [1, 2, 3, 4] [''fair'', ''good'', ''high'']) Ok]"

text \<open>
  The preload asks for \<open>'low'\<close>; the user clicks \<open>'original'\<close>, so the result is dropped
  and every level is shown as available on demand; the preview of \<open>'original'\<close> finishes and
  the preload starts again and asks for \<open>'low'\<close>; the user clicks \<open>'low'\<close>.
\<close>

definition session_duplicate :: "ui_event list" where
  "session_duplicate = load_events @
     [Resume (PL_arrayBuffer sample_pdf) (Bytes [1, 2, 3, 4]),
      Click ''original'',
      Resume (PL_compress sample_pdf [1, 2, 3, 4] ''low'' [''medium'', ''fair'', ''good'', ''high'']) (Bytes [7]),
      Resume (SC_load 4) Ok,
      Resume (PL_arrayBuffer sample_pdf) (Bytes [1, 2, 3, 4]),
      Click ''low'',
      Resume (LQ_arrayBuffer 3 ''low'') (Bytes [1, 2, 3, 4])]"

text \<open>
  As before up to the second start of the preload, but the user clicks \<open>'low'\<close> before the
  preload has read the file, then \<open>'original'\<close> again; the preload starts a third time and
  asks for \<open>'low'\<close> while the user's job for \<open>'low'\<close> is still out. Both jobs deliver, in
  the order they were submitted, and the user resets the page.
\<close>

definition session_overwrite :: "ui_event list" where
  "session_overwrite = load_events @
     [Resume (PL_arrayBuffer sample_pdf) (Bytes [1, 2, 3, 4]),
      Click ''original'',
      Resume (PL_compress sample_pdf [1, 2, 3, 4] ''low'' [''medium'', ''fair'', ''good'', ''high'']) (Bytes [7]),
      Resume (SC_load 4) Ok,
      Click ''low'',
      Resume (LQ_arrayBuffer 3 ''low'') (Bytes [1, 2, 3, 4]),
      Resume (PL_arrayBuffer sample_pdf) (Bytes [1, 2, 3, 4]),
      Click ''original'',
      Resume (SC_load 4) Ok,
      Resume (PL_arrayBuffer sample_pdf) (Bytes [1, 2, 3, 4]),
      Resume (LQ_compress 3 ''low'') (Bytes [7]),
      Resume (PL_compress sample_pdf [1, 2, 3, 4] ''low'' [''medium'', ''fair'', ''good'', ''high'']) (Bytes [8]),
      ResetClicked]"

fun url_effect :: "effect \<Rightarrow> bool" where
  "url_effect (CreateObjectURL u) = True"
| "url_effect (RevokeObjectURL u) = True"
| "url_effect _ = False"

fun bookkeeping :: "effect \<Rightarrow> bool" where
  "bookkeeping (PendingAdd q) = True"
| "bookkeeping (PendingDelete q) = True"
| "bookkeeping (CacheWrite q u) = True"
| "bookkeeping _ = False"

text \<open>
  For the job queue: three submissions in a row; the same followed by the replies to the
  first two; and what happens after a reset.
\<close>

definition three_submissions :: "cw_event list" where
  "three_submissions =
     [Init, Compress [1] ''low'' None, Compress [1] ''medium'' None, Compress [1] ''good'' None]"

definition two_replies :: "cw_event list" where
  "two_replies = [Message 1 (Done 9 1 1), Fetched (1, 1, 9, 1, 1) (Some [5]), Message 2 Err]"

definition after_reset :: "cw_event list" where
  "after_reset =
     [Init, Compress [2] ''high'' None, Message 1 (Done 9 1 1), Fetched (4, 2, 9, 1, 1) (Some [7])]"

text \<open>
  A reset that falls between a reply and the end of its \<open>onmessage\<close> call, with one
  submission before the call goes on and one after.
\<close>

definition reset_in_fetch :: "cw_event list" where
  "reset_in_fetch =
     [Init, Compress [1] ''low'' None, Message 1 (Done 9 1 1), Reset, Init,
      Compress [2] ''medium'' None, Fetched (1, 1, 9, 1, 1) (Some [5]), Compress [2] ''good'' None]"

text \<open>
  Three submissions and the reply to the first: two jobs are queued and the third is in
  flight, its \<open>onmessage\<close> call suspended at \<open>await fetch(compressedURL)\<close>.
\<close>

definition reply_being_fetched :: "cw_event list" where
  "reply_being_fetched = three_submissions @ [Message 1 (Done 9 1 1)]"

text \<open>
  The preload caches \<open>'low'\<close>; during the pause that follows the user clicks the cached
  \<open>'original'\<close>, so the loop stops and shows the other levels as available on demand; the
  user clicks \<open>'medium'\<close> and the job for it is submitted; then the preview of
  \<open>'original'\<close> finishes, which resumes the preload.
\<close>

definition session_resubmit :: "ui_event list" where
  "session_resubmit = load_events @
     [Resume (PL_arrayBuffer sample_pdf) (Bytes [1, 2, 3, 4]),
      Resume (PL_compress sample_pdf [1, 2, 3, 4] ''low'' [''medium'', ''fair'', ''good'', ''high'']) (Bytes [7]),
      Click ''original'',
      Resume (PL_delay sample_pdf [1, 2, 3, 4] [''medium'', ''fair'', ''good'', ''high'']) Ok,
      Click ''medium'',
      Resume (LQ_arrayBuffer 3 ''medium'') (Bytes [1, 2, 3, 4]),
      Resume (SC_load 4) Ok,
      Resume (PL_arrayBuffer sample_pdf) (Bytes [1, 2, 3, 4])]"


section \<open>Properties of the background worker\<close>

subsection \<open>Engine lifecycle\<close>

lemma invoke_cases:
  "invoke buffer pq load_ok run e =
     (if reinit_due False e \<and> \<not> load_ok then (Inl LoadError, e)
      else case run of
             None \<Rightarrow> (Inl EngineError,
                (if reinit_due False e
                 then e\<lparr> module := Some (Suc (loads e)), compressionCount := 0, loads := Suc (loads e) \<rparr>
                 else e) \<lparr> compressionCount := 999 \<rparr>)
           | Some out \<Rightarrow> (Inr out,
                (if reinit_due False e
                 then e\<lparr> module := Some (Suc (loads e)), compressionCount := 1, loads := Suc (loads e) \<rparr>
                 else e\<lparr> compressionCount := compressionCount e + 1 \<rparr>)))"
  by (cases "module e"; cases run)
    (simp_all add: invoke_def GhostscriptEngine_init_def GhostscriptEngine_compress_def reinit_due_def)



subsection \<open>Size-regression guard\<close>

text \<open>
  C9. When the engine's output has at least as many octets as the input, \<open>process\<close>
  replies with the input itself, sizes unchanged; and whatever \<open>process\<close> delivers in a
  success reply is never longer than the input (it is the input or the engine's output).
\<close>

theorem size_regression_guard:
  "(\<forall>out. run = Some out \<and> length buffer \<le> length out
          \<and> (load_ok \<or> \<not> reinit_due False e) \<longrightarrow>
        fst (process mid (Some buffer) qname dpi load_ok run e)
          = Success mid buffer (length buffer) (length buffer))
   \<and> (\<forall>m out osz csz.
        fst (process mid (Some buffer) qname dpi load_ok run e) = Success m out osz csz \<longrightarrow>
        m = mid \<and> length out \<le> length buffer \<and> osz = length buffer \<and> csz = length out
        \<and> (out = buffer \<or> run = Some out))"
  by (cases run; cases "parseQuality qname dpi = Str ''original''")
    (auto simp: process_def invoke_cases createResult_def Let_def)

theorem size_regression_guard_witness:
  "Some [9, 9, 9, 9, 9, 9] = Some [9, 9, 9, 9, 9, 9 :: 8 word]
   \<and> length [1, 2, 3, 4, 5 :: 8 word] \<le> length [9, 9, 9, 9, 9, 9 :: 8 word]
   \<and> fst (process 1 (Some [1, 2, 3, 4, 5]) ''low'' None True (Some [9, 9, 9, 9, 9, 9]) engine_new)
     = Success 1 [1, 2, 3, 4, 5] 5 5"
  using size_regression_guard [of "Some [9, 9, 9, 9, 9, 9]" "[1, 2, 3, 4, 5]" True engine_new 1 "''low''" None,
      THEN conjunct1, rule_format, of "[9, 9, 9, 9, 9, 9]"]
  by simp

subsection \<open>Quality names outside the map\<close>

lemma parseQuality_medium: "parseQuality ''medium'' dpi = Num 150"
  by (simp add: parseQuality_def qualityMap_get_def qualityMap_def)

text \<open>
  C10, as stated, fails: \<open>'constructor'\<close> is not a key of the quality map, yet the
  property read finds the member inherited from \<open>Object.prototype\<close>, which is not
  nullish, so \<open>??\<close> does not fall back to 150.
\<close>

theorem parseQuality_unlisted_counterexample:
  "''constructor'' \<notin> set (map fst qualityMap) \<and> parseQuality ''constructor'' None \<noteq> Num 150"
  by (simp add: parseQuality_def qualityMap_get_def qualityMap_def object_prototype_keys_def)

text \<open>
  C10, amended. For every quality name that is neither a key of the quality map nor a key of
  \<open>Object.prototype\<close>, \<open>parseQuality\<close> returns 150, the value of \<open>'medium'\<close>:
  the engine gets the same arguments and \<open>process\<close> behaves as it does for
  \<open>'medium'\<close>. The name \<open>'fair'\<close> of the preload list is such a name.
\<close>

theorem parseQuality_unlisted:
  "qname \<notin> set (map fst qualityMap) \<and> qname \<notin> set object_prototype_keys \<longrightarrow>
     parseQuality qname dpi = Num 150
   \<and> parseQuality qname dpi = parseQuality ''medium'' dpi
   \<and> buildArgs (parseQuality qname dpi) = buildArgs (parseQuality ''medium'' dpi)
   \<and> process mid fetched qname dpi load_ok run e
       = process mid fetched ''medium'' dpi load_ok run e"
proof
  assume h: "qname \<notin> set (map fst qualityMap) \<and> qname \<notin> set object_prototype_keys"
  then have "map_of qualityMap qname = None"
    by (simp add: map_of_eq_None_iff)
  with h have pq: "parseQuality qname dpi = Num 150"
    by (simp add: parseQuality_def qualityMap_get_def)
  show "parseQuality qname dpi = Num 150
   \<and> parseQuality qname dpi = parseQuality ''medium'' dpi
   \<and> buildArgs (parseQuality qname dpi) = buildArgs (parseQuality ''medium'' dpi)
   \<and> process mid fetched qname dpi load_ok run e
       = process mid fetched ''medium'' dpi load_ok run e"
    by (cases fetched) (simp_all add: pq parseQuality_medium process_def)
qed

theorem parseQuality_unlisted_witness:
  "''fair'' \<in> set qualities
   \<and> ''fair'' \<notin> set (map fst qualityMap) \<and> ''fair'' \<notin> set object_prototype_keys
   \<and> parseQuality ''fair'' None = Num 150
   \<and> fst (process 3 (Some [1, 2, 3]) ''fair'' None True (Some [7]) engine_new) = Success 3 [7] 3 1"
  using parseQuality_unlisted [of "''fair''" None 3 "Some [1, 2, 3]" True "Some [7]" engine_new]
  by (simp add: qualities_def qualityMap_def object_prototype_keys_def process_def parseQuality_medium
      invoke_cases reinit_due_def engine_new_def createResult_def)

section \<open>Properties of the job queue\<close>

subsection \<open>Reading traces, and the fields after each method\<close>

lemma submitted_append [simp]: "submitted (a @ b) = submitted a @ submitted b"
  by (induction a rule: submitted.induct) simp_all

lemma posted_append [simp]: "posted (a @ b) = posted a @ posted b"
  by (induction a rule: posted.induct) simp_all

lemma settled_append [simp]: "settled (a @ b) = settled a @ settled b"
  by (induction a rule: settled.induct) simp_all

lemma executeCompress_fields:
  "queue (snd (executeCompress j s)) = queue s"
  "fetching (snd (executeCompress j s)) = fetching s"
  "promises (snd (executeCompress j s)) = promises s"
  "worker (snd (executeCompress j s)) = worker s"
  "isProcessing (snd (executeCompress j s))"
  "messageId (snd (executeCompress j s)) = Suc (messageId s)"
  "pendingRequests (snd (executeCompress j s))
     = AList.update (Suc (messageId s)) (promise j, Suc (urls s)) (pendingRequests s)"
  "inbox (snd (executeCompress j s)) = (if worker s then inbox s @ [(Suc (messageId s), j)] else inbox s)"
  "settled (trace (snd (executeCompress j s))) = settled (trace s)"
  "submitted (trace (snd (executeCompress j s))) = submitted (trace s)"
  "posted (trace (snd (executeCompress j s))) = posted (trace s) @ (if worker s then [j] else [])"
  "fst (executeCompress j s) = worker s"
  by (simp_all add: executeCompress_def Let_def)

lemma init_fields:
  "queue (CompressionWorker_init s) = queue s"
  "pendingRequests (CompressionWorker_init s) = pendingRequests s"
  "isProcessing (CompressionWorker_init s) = isProcessing s"
  "messageId (CompressionWorker_init s) = messageId s"
  "worker (CompressionWorker_init s)"
  "fetching (CompressionWorker_init s) = fetching s"
  "promises (CompressionWorker_init s) = promises s"
  "inbox (CompressionWorker_init s) = inbox s"
  "settled (trace (CompressionWorker_init s)) = settled (trace s)"
  "posted (trace (CompressionWorker_init s)) = posted (trace s)"
  "submitted (trace (CompressionWorker_init s)) = submitted (trace s)"
  by (simp_all add: CompressionWorker_init_def)

lemma reset_fields:
  "queue (CompressionWorker_reset s) = []"
  "pendingRequests (CompressionWorker_reset s) = []"
  "\<not> isProcessing (CompressionWorker_reset s)"
  "messageId (CompressionWorker_reset s) = 0"
  "\<not> worker (CompressionWorker_reset s)"
  "fetching (CompressionWorker_reset s) = fetching s"
  "promises (CompressionWorker_reset s) = promises s"
  "settled (trace (CompressionWorker_reset s)) = settled (trace s)"
  "posted (trace (CompressionWorker_reset s)) = posted (trace s)"
  by (simp_all add: CompressionWorker_reset_def Let_def)

lemma compress_idle:
  assumes "\<not> isProcessing s" "worker s"
  shows "snd (CompressionWorker_compress buf q dpi s)
    = snd (executeCompress \<lparr> fileBuffer = buf, job_quality = q, customDPI = dpi, promise = Suc (promises s) \<rparr>
        (s\<lparr> promises := Suc (promises s),
            trace := trace s @ [Submit \<lparr> fileBuffer = buf, job_quality = q, customDPI = dpi,
              promise = Suc (promises s) \<rparr>] \<rparr>))"
  using assms by (simp add: CompressionWorker_compress_def Let_def executeCompress_def)

subsection \<open>FIFO order and a single job in flight\<close>

lemma cw_inv_init: "cw_inv (CompressionWorker_init CompressionWorker_new)"
  by (simp add: cw_inv_def CompressionWorker_init_def CompressionWorker_new_def)

lemma cw_inv_Init: "cw_inv s \<Longrightarrow> cw_inv (CompressionWorker_init s)"
  by (simp add: cw_inv_def CompressionWorker_init_def)

lemma cw_inv_Compress: "cw_inv s \<Longrightarrow> cw_inv (snd (CompressionWorker_compress buf q dpi s))"
  unfolding cw_inv_def CompressionWorker_compress_def executeCompress_def Let_def
  by (cases "isProcessing s") auto

lemma cw_inv_processNext:
  assumes "worker s" "posted (trace s) @ queue s = submitted (trace s)"
    "map promise (submitted (trace s)) = [1..<Suc (promises s)]"
    "inbox s = []" "pendingRequests s = []" "fetching s = []"
    "map promise (posted (trace s)) = settled (trace s)"
  shows "cw_inv (processNext s)"
  using assms unfolding cw_inv_def processNext_def executeCompress_def Let_def
  by (cases "queue s") auto

lemma cw_inv_Message:
  assumes inv: "cw_inv s" and en: "mid \<in> fst ` set (inbox s)"
  shows "cw_inv (onmessage mid msg s)"
proof -
  from inv en obtain j u where run:
    "worker s" "posted (trace s) @ queue s = submitted (trace s)"
    "map promise (submitted (trace s)) = [1..<Suc (promises s)]"
    "isProcessing s" "inbox s = [(messageId s, j)]"
    "pendingRequests s = [(messageId s, (promise j, u))]" "fetching s = []"
    "map promise (posted (trace s)) = settled (trace s) @ [promise j]"
    unfolding cw_inv_def by auto
  from en run have mid: "mid = messageId s" by simp
  show ?thesis
  proof (cases msg)
    case (Done cu osz csz)
    then show ?thesis
      using run mid unfolding cw_inv_def onmessage_def Let_def by simp
  next
    case Err
    let ?s1 = "s\<lparr> inbox := [], pendingRequests := [],
      trace := trace s @ [RevokeBlobURL u, Reject (promise j)] \<rparr>"
    have eq: "onmessage mid msg s = processNext ?s1"
      using run mid Err unfolding onmessage_def Let_def by simp
    show ?thesis unfolding eq
      by (rule cw_inv_processNext) (use run in simp_all)
  qed
qed

lemma cw_inv_Fetched:
  assumes inv: "cw_inv s" and en: "h \<in> set (fetching s)"
  shows "cw_inv (onmessage_fetched h fetched s)"
proof -
  from inv en have f: 
    "worker s" "posted (trace s) @ queue s = submitted (trace s)"
    "map promise (submitted (trace s)) = [1..<Suc (promises s)]"
    "isProcessing s" "inbox s = []" "pendingRequests s = []" "fetching s = [h]"
    "map promise (posted (trace s)) = settled (trace s) @ [fst h]"
    unfolding cw_inv_def by auto
  obtain p u cu osz csz where h: "h = (p, u, cu, osz, csz)" by (cases h) 
  show ?thesis
  proof (cases fetched)
    case None
    have eq: "onmessage_fetched h fetched s
      = processNext (s\<lparr> fetching := [], trace := trace s @ [RevokeBlobURL u, Reject p] \<rparr>)"
      using f h None unfolding onmessage_fetched_def Let_def by simp
    show ?thesis unfolding eq
      by (rule cw_inv_processNext) (use f h in simp_all)
  next
    case (Some buffer)
    have eq: "onmessage_fetched h fetched s
      = processNext (s\<lparr> fetching := [], trace := trace s @
          [RevokeBlobURL u, RevokeBlobURL cu, Resolve p buffer osz csz] \<rparr>)"
      using f h Some unfolding onmessage_fetched_def Let_def by simp
    show ?thesis unfolding eq
      by (rule cw_inv_processNext) (use f h in simp_all)
  qed
qed

lemma cw_inv_step:
  "cw_inv s \<Longrightarrow> cw_enabled e s \<Longrightarrow> e \<noteq> Reset \<Longrightarrow> cw_inv (cw_step e s)"
  by (cases e) (simp_all add: cw_inv_Init cw_inv_Compress cw_inv_Message cw_inv_Fetched)

lemma cw_inv_run:
  "cw_inv s \<Longrightarrow> cw_valid es s \<Longrightarrow> Reset \<notin> set es \<Longrightarrow> cw_inv (cw_run es s)"
proof (induction es arbitrary: s)
  case Nil
  then show ?case by simp
next
  case (Cons e es)
  from Cons.prems have "cw_inv (cw_step e s)"
    by (intro cw_inv_step) auto
  with Cons.prems show ?case
    by (simp add: Cons.IH)
qed

lemma filter_unsettled:
  assumes "distinct (map f xs)" "map f xs = a @ b"
  shows "length (filter (\<lambda>x. f x \<notin> set a) xs) = length b"
proof -
  from assms(2) obtain xs1 xs2 where xs: "xs = xs1 @ xs2" "map f xs1 = a" "map f xs2 = b"
    by (auto simp: map_eq_append_conv)
  from assms(1) xs have disj: "set (map f xs1) \<inter> set (map f xs2) = {}" by simp
  have "filter (\<lambda>x. f x \<notin> set a) xs1 = []"
    using xs(2) by (auto simp: filter_empty_conv)
  moreover have "filter (\<lambda>x. f x \<notin> set a) xs2 = xs2"
    using disj xs(2) by (auto simp: filter_id_conv)
  moreover have "length xs2 = length b"
    using xs(3) by (metis length_map)
  ultimately show ?thesis using xs(1) by simp
qed

lemma cw_inv_in_flight: 
  assumes "cw_inv s" shows "length (in_flight (trace s)) \<le> 1"
proof -
  from assms have sub: "posted (trace s) @ queue s = submitted (trace s)"
    and num: "map promise (submitted (trace s)) = [1..<Suc (promises s)]"
    unfolding cw_inv_def by auto
  have "distinct (map promise (submitted (trace s)))" unfolding num by simp
  then have d: "distinct (map promise (posted (trace s)))"
    unfolding sub [symmetric] by simp
  from assms obtain b where "map promise (posted (trace s)) = settled (trace s) @ b" "length b \<le> 1"
    unfolding cw_inv_def by auto
  with filter_unsettled [OF d this(1)] show ?thesis
    unfolding in_flight_def by simp
qed

lemma cw_inv_busy:
  assumes "cw_inv s" shows "isProcessing s \<longleftrightarrow> length (in_flight (trace s)) = 1"
proof -
  from assms have sub: "posted (trace s) @ queue s = submitted (trace s)"
    and num: "map promise (submitted (trace s)) = [1..<Suc (promises s)]"
    unfolding cw_inv_def by auto
  have "distinct (map promise (submitted (trace s)))" unfolding num by simp
  then have d: "distinct (map promise (posted (trace s)))"
    unfolding sub [symmetric] by simp
  from assms obtain b where b: "map promise (posted (trace s)) = settled (trace s) @ b"
    "isProcessing s \<longleftrightarrow> length b = 1"
    unfolding cw_inv_def by auto
  with filter_unsettled [OF d b(1)] show ?thesis
    unfolding in_flight_def by simp
qed

text \<open>
  What holds as long as the manager is not reset. Take any sequence of submissions to an
  initialised manager, interleaved in any way with the worker's replies and the completions
  of the suspended \<open>onmessage\<close> calls. At every point of it, the jobs posted to the worker
  followed by the jobs still queued are exactly the jobs submitted, in submission order; at
  most one posted job has its promise unsettled; and \<open>isProcessing\<close> holds exactly when
  there is one.
\<close>

lemma fifo_single_flight:
  "cw_valid es (CompressionWorker_init CompressionWorker_new) \<and> Reset \<notin> set es \<longrightarrow>
     (let s = cw_run es (CompressionWorker_init CompressionWorker_new)
      in posted (trace s) @ queue s = submitted (trace s)
       \<and> length (in_flight (trace s)) \<le> 1
       \<and> (isProcessing s \<longleftrightarrow> length (in_flight (trace s)) = 1))"
proof
  assume h: "cw_valid es (CompressionWorker_init CompressionWorker_new) \<and> Reset \<notin> set es"
  then have inv: "cw_inv (cw_run es (CompressionWorker_init CompressionWorker_new))"
    by (intro cw_inv_run cw_inv_init) simp_all
  then have "posted (trace (cw_run es (CompressionWorker_init CompressionWorker_new)))
      @ queue (cw_run es (CompressionWorker_init CompressionWorker_new))
    = submitted (trace (cw_run es (CompressionWorker_init CompressionWorker_new)))"
    unfolding cw_inv_def by blast
  with cw_inv_in_flight [OF inv] cw_inv_busy [OF inv]
  show "let s = cw_run es (CompressionWorker_init CompressionWorker_new)
      in posted (trace s) @ queue s = submitted (trace s)
       \<and> length (in_flight (trace s)) \<le> 1
       \<and> (isProcessing s \<longleftrightarrow> length (in_flight (trace s)) = 1)"
    by (simp add: Let_def)
qed

lemma fifo_single_flight_witness:
  "(cw_valid (tl three_submissions @ two_replies) (CompressionWorker_init CompressionWorker_new)
    \<and> Reset \<notin> set (tl three_submissions @ two_replies))
   \<and> (let s = cw_run (tl three_submissions @ two_replies) (CompressionWorker_init CompressionWorker_new)
      in posted (trace s) @ queue s = submitted (trace s)
       \<and> length (in_flight (trace s)) \<le> 1
       \<and> (isProcessing s \<longleftrightarrow> length (in_flight (trace s)) = 1))
   \<and> (let s = cw_run (tl three_submissions @ two_replies) (CompressionWorker_init CompressionWorker_new)
      in map job_quality (submitted (trace s)) = [''low'', ''medium'', ''good'']
       \<and> map job_quality (posted (trace s)) = [''low'', ''medium'', ''good'']
       \<and> settled (trace s) = [1, 2]
       \<and> map promise (in_flight (trace s)) = [3])"
proof -
  have h: "cw_valid (tl three_submissions @ two_replies) (CompressionWorker_init CompressionWorker_new)
      \<and> Reset \<notin> set (tl three_submissions @ two_replies)"
    by code_simp
  note t = fifo_single_flight [of "tl three_submissions @ two_replies", THEN mp, OF h]
  have e: "let s = cw_run (tl three_submissions @ two_replies) (CompressionWorker_init CompressionWorker_new)
      in map job_quality (submitted (trace s)) = [''low'', ''medium'', ''good'']
       \<and> map job_quality (posted (trace s)) = [''low'', ''medium'', ''good'']
       \<and> settled (trace s) = [1, 2]
       \<and> map promise (in_flight (trace s)) = [3]"
    by code_simp
  from h t e show ?thesis by blast
qed

text \<open>
  C1. The manager does not keep to one job in flight. \<open>reset()\<close> (which \<open>handleFile\<close>
  calls for every file chosen) does not reach an \<open>onmessage\<close> call that is suspended at
  \<open>await fetch(compressedURL)\<close>. In \<open>reset_in_fetch\<close> the reset falls there and a job
  for \<open>'medium'\<close> is submitted and posted to the new worker. When the old call goes on it
  settles promise 1 and calls \<open>processNext\<close>, which clears \<open>isProcessing\<close> while job 2
  is with the worker; the next submission, \<open>'good'\<close>, is therefore posted at once, and two
  jobs are in flight together. The jobs are still posted in the order they were submitted.
\<close>

theorem reset_breaks_single_flight:
  "cw_valid reset_in_fetch CompressionWorker_new
   \<and> \<not> isProcessing (cw_run (take 7 reset_in_fetch) CompressionWorker_new)
   \<and> map (promise \<circ> snd) (inbox (cw_run (take 7 reset_in_fetch) CompressionWorker_new)) = [2]
   \<and> map promise (in_flight (trace (cw_run (take 7 reset_in_fetch) CompressionWorker_new))) = [2]
   \<and> map (job_quality \<circ> snd) (inbox (cw_run reset_in_fetch CompressionWorker_new)) = [''medium'', ''good'']
   \<and> map promise (in_flight (trace (cw_run reset_in_fetch CompressionWorker_new))) = [2, 3]
   \<and> length (in_flight (trace (cw_run reset_in_fetch CompressionWorker_new))) = 2
   \<and> map promise (posted (trace (cw_run reset_in_fetch CompressionWorker_new))) = [1, 2, 3]
   \<and> map promise (submitted (trace (cw_run reset_in_fetch CompressionWorker_new))) = [1, 2, 3]"
  by code_simp

subsection \<open>Reset\<close>

lemma cw_wf_new: "cw_wf CompressionWorker_new"
  by (simp add: cw_wf_def cw_refs_def awaiting_reply_def CompressionWorker_new_def)

lemma cw_wf_init:
  assumes "cw_wf s" shows "cw_wf (CompressionWorker_init s)"
proof -
  have r: "cw_refs (CompressionWorker_init s) = cw_refs s"
    by (simp add: cw_refs_def awaiting_reply_def init_fields)
  from assms show ?thesis
    unfolding cw_wf_def r by (simp add: init_fields)
qed

lemma reset_inbox: "cw_wf s \<Longrightarrow> inbox (CompressionWorker_reset s) = []"
  by (auto simp: CompressionWorker_reset_def Let_def cw_wf_def)

lemma cw_wf_reset:
  assumes "cw_wf s" shows "cw_wf (CompressionWorker_reset s)"
proof -
  from assms have i: "inbox (CompressionWorker_reset s) = []"
    by (rule reset_inbox)
  have r: "cw_refs (CompressionWorker_reset s) = map fst (fetching s)"
    by (simp add: cw_refs_def awaiting_reply_def i reset_fields)
  from assms have "distinct (map fst (fetching s))"
    and "\<forall>p \<in> set (map fst (fetching s)). p \<le> promises s \<and> p \<notin> set (settled (trace s))"
    and "\<forall>p \<in> set (settled (trace s)). p \<le> promises s"
    unfolding cw_wf_def cw_refs_def by simp_all
  then show ?thesis
    unfolding cw_wf_def r i by (simp add: reset_fields)
qed

lemma inbox_le:
  assumes "cw_wf s" "m \<in> set (inbox s)" shows "fst m \<le> messageId s"
proof -
  from assms obtain u where "map_of (pendingRequests s) (fst m) = Some (promise (snd m), u)"
    unfolding cw_wf_def by blast
  then have "fst m \<in> fst ` set (pendingRequests s)"
    by (metis domI dom_map_of_conv_image_fst)
  with assms(1) show ?thesis unfolding cw_wf_def by blast
qed

lemma cw_wf_executeCompress:
  assumes wf: "cw_wf s" and fresh: "promise j \<notin> set (cw_refs s)"
    and le: "promise j \<le> promises s" and uns: "promise j \<notin> set (settled (trace s))"
  shows "cw_wf (snd (executeCompress j s))"
proof -
  let ?s = "snd (executeCompress j s)"
  have notin: "Suc (messageId s) \<notin> fst ` set (inbox s)"
    using inbox_le [OF wf] by fastforce
  have 1: "distinct (map fst (inbox ?s))"
    using wf notin by (simp add: executeCompress_fields cw_wf_def)
  have 2: "\<forall>m \<in> set (inbox ?s). \<exists>u. map_of (pendingRequests ?s) (fst m) = Some (promise (snd m), u)"
  proof
    fix m assume m: "m \<in> set (inbox ?s)"
    show "\<exists>u. map_of (pendingRequests ?s) (fst m) = Some (promise (snd m), u)"
    proof (cases "m \<in> set (inbox s)")
      case True
      with notin have "fst m \<noteq> Suc (messageId s)" by force
      moreover from wf True obtain u where "map_of (pendingRequests s) (fst m) = Some (promise (snd m), u)"
        unfolding cw_wf_def by blast
      ultimately show ?thesis by (simp add: executeCompress_fields update_conv')
    next
      case False
      with m have "m = (Suc (messageId s), j)"
        by (simp add: executeCompress_fields split: if_splits)
      then show ?thesis by (simp add: executeCompress_fields update_conv')
    qed
  qed
  have 3: "\<forall>k \<in> fst ` set (pendingRequests ?s). k \<le> messageId ?s"
    using wf by (auto simp: executeCompress_fields dom_update cw_wf_def le_Suc_eq)
  have 4: "\<not> worker ?s \<longrightarrow> inbox ?s = []"
    using wf by (simp add: executeCompress_fields cw_wf_def)
  have r: "set (cw_refs ?s) \<subseteq> insert (promise j) (set (cw_refs s))"
    by (auto simp: cw_refs_def awaiting_reply_def executeCompress_fields)
  have 5: "distinct (cw_refs ?s)"
    using wf fresh by (auto simp: cw_refs_def awaiting_reply_def executeCompress_fields cw_wf_def)
  have 6: "\<forall>p \<in> set (cw_refs ?s). p \<le> promises ?s \<and> p \<notin> set (settled (trace ?s))"
    using wf le uns r by (auto simp: executeCompress_fields cw_wf_def)
  have 7: "\<forall>p \<in> set (settled (trace ?s)). p \<le> promises ?s"
    using wf by (simp add: executeCompress_fields cw_wf_def)
  from 1 2 3 4 5 6 7 show ?thesis unfolding cw_wf_def by blast
qed

lemma cw_wf_processNext:
  assumes wf: "cw_wf s" shows "cw_wf (processNext s)"
proof (cases "queue s")
  case Nil
  with wf show ?thesis
    by (simp add: processNext_def cw_wf_def cw_refs_def awaiting_reply_def)
next
  case (Cons j rest)
  let ?s1 = "s\<lparr> isProcessing := False, queue := rest \<rparr>"
  have eq: "processNext s = snd (executeCompress j ?s1)"
    using Cons by (simp add: processNext_def)
  have r: "cw_refs s = promise j # cw_refs ?s1"
    using Cons by (simp add: cw_refs_def awaiting_reply_def)
  from wf have wf1: "cw_wf ?s1"
    unfolding cw_wf_def r by (simp add: awaiting_reply_def)
  from wf have "promise j \<notin> set (cw_refs ?s1)" "promise j \<le> promises ?s1"
    "promise j \<notin> set (settled (trace ?s1))"
    unfolding cw_wf_def r by simp_all
  with wf1 show ?thesis unfolding eq by (rule cw_wf_executeCompress)
qed

lemma cw_wf_compress:
  assumes wf: "cw_wf s" shows "cw_wf (snd (CompressionWorker_compress buf q dpi s))"
proof -
  let ?p = "Suc (promises s)"
  let ?j = "\<lparr> fileBuffer = buf, job_quality = q, customDPI = dpi, promise = ?p \<rparr>"
  let ?s1 = "s\<lparr> promises := ?p, trace := trace s @ [Submit ?j] \<rparr>"
  have r1: "cw_refs ?s1 = cw_refs s" by (simp add: cw_refs_def awaiting_reply_def)
  from wf have wf1: "cw_wf ?s1"
    unfolding cw_wf_def r1 by auto
  from wf have fresh: "?p \<notin> set (cw_refs s)" "?p \<notin> set (settled (trace s))"
    unfolding cw_wf_def by fastforce+
  show ?thesis
  proof (cases "isProcessing s")
    case True
    then have eq: "snd (CompressionWorker_compress buf q dpi s) = ?s1\<lparr> queue := queue ?s1 @ [?j] \<rparr>"
      by (simp add: CompressionWorker_compress_def Let_def)
    have r: "set (cw_refs (?s1\<lparr> queue := queue ?s1 @ [?j] \<rparr>)) = insert ?p (set (cw_refs s))"
      by (auto simp: cw_refs_def awaiting_reply_def)
    have d: "distinct (cw_refs (?s1\<lparr> queue := queue ?s1 @ [?j] \<rparr>))"
      using wf fresh(1) by (auto simp: cw_refs_def awaiting_reply_def cw_wf_def)
    from wf1 fresh show ?thesis unfolding eq cw_wf_def r using d
      by (auto simp: r1)
  next
    case False
    have wfe: "cw_wf (snd (executeCompress ?j ?s1))"
      by (rule cw_wf_executeCompress [OF wf1]) (use fresh in \<open>simp_all add: r1\<close>)
    show ?thesis
    proof (cases "worker s")
      case True
      with False have "snd (CompressionWorker_compress buf q dpi s) = snd (executeCompress ?j ?s1)"
        by (simp add: CompressionWorker_compress_def Let_def executeCompress_def)
      with wfe show ?thesis by simp
    next
      case w: False
      let ?s2 = "snd (executeCompress ?j ?s1)"
      from False w have eq: "snd (CompressionWorker_compress buf q dpi s)
          = ?s2\<lparr> trace := trace ?s2 @ [Reject ?p] \<rparr>"
        by (simp add: CompressionWorker_compress_def Let_def executeCompress_def)
      have r2: "cw_refs (?s2\<lparr> trace := trace ?s2 @ [Reject ?p] \<rparr>) = cw_refs s"
        using w by (simp add: cw_refs_def awaiting_reply_def executeCompress_fields)
      have r3: "cw_refs ?s2 = cw_refs s"
        using w by (simp add: cw_refs_def awaiting_reply_def executeCompress_fields)
      from wfe fresh show ?thesis
        unfolding eq cw_wf_def r2 r3 by (auto simp: executeCompress_fields)
    qed
  qed
qed

lemma cw_wf_settle:
  assumes wf: "cw_wf s" and fresh: "p \<notin> set (cw_refs s)" and le: "p \<le> promises s"
    and tr: "settled tr = settled (trace s) @ [p]"
  shows "cw_wf (s\<lparr> trace := tr \<rparr>)"
proof -
  have r: "cw_refs (s\<lparr> trace := tr \<rparr>) = cw_refs s"
    by (simp add: cw_refs_def awaiting_reply_def)
  from wf fresh le show ?thesis
    unfolding cw_wf_def r by (auto simp: tr)
qed

lemma cw_wf_answered:
  assumes wf: "cw_wf s" and m: "(mid, j) \<in> set (inbox s)"
  defines "s1 \<equiv> s\<lparr> inbox := filter (\<lambda>m. fst m \<noteq> mid) (inbox s),
                      pendingRequests := AList.delete mid (pendingRequests s) \<rparr>"
  shows "cw_wf s1" and "promise j \<notin> set (cw_refs s1)" and "promise j \<le> promises s1"
    and "promise j \<notin> set (settled (trace s1))"
proof -
  from wf have d: "distinct (map fst (inbox s))" and dr: "distinct (cw_refs s)"
    and inb: "\<forall>m \<in> set (inbox s). \<exists>u. map_of (pendingRequests s) (fst m) = Some (promise (snd m), u)"
    unfolding cw_wf_def by blast+
  from dr have da: "distinct (map (promise \<circ> snd) (inbox s))"
    unfolding cw_refs_def awaiting_reply_def by simp
  have other: "(promise \<circ> snd) m \<noteq> promise j" if "m \<in> set (inbox s)" "fst m \<noteq> mid" for m
  proof -
    from that m have "m \<noteq> (mid, j)" by auto
    with da that(1) m show ?thesis
      by (metis comp_apply distinct_map inj_on_contraD snd_conv)
  qed
  have pj: "promise j \<in> set (awaiting_reply s)"
    using m by (force simp: awaiting_reply_def)
  have sub: "set (awaiting_reply s1) \<subseteq> set (awaiting_reply s)"
    by (auto simp: awaiting_reply_def s1_def)
  have nj: "promise j \<notin> set (awaiting_reply s1)"
  proof
    assume "promise j \<in> set (awaiting_reply s1)"
    then obtain m' where "m' \<in> set (inbox s)" "fst m' \<noteq> mid" "(promise \<circ> snd) m' = promise j"
      by (auto simp: awaiting_reply_def s1_def)
    with other show False by blast
  qed
  have da1: "distinct (awaiting_reply s1)"
    using da by (simp add: awaiting_reply_def s1_def distinct_map_filter)
  have q: "queue s1 = queue s" "fetching s1 = fetching s" "promises s1 = promises s"
    "trace s1 = trace s" "worker s1 = worker s" "messageId s1 = messageId s"
    by (simp_all add: s1_def)
  have 5: "distinct (cw_refs s1)"
    using dr da1 sub unfolding cw_refs_def q by auto
  have rsub: "set (cw_refs s1) \<subseteq> set (cw_refs s)"
    using sub unfolding cw_refs_def q by auto
  show "promise j \<notin> set (cw_refs s1)"
    using dr pj nj unfolding cw_refs_def q by auto
  from wf pj show "promise j \<le> promises s1" "promise j \<notin> set (settled (trace s1))"
    unfolding cw_wf_def cw_refs_def q by auto
  have 1: "distinct (map fst (inbox s1))"
    using d by (simp add: s1_def distinct_map_filter)
  have 2: "\<forall>m \<in> set (inbox s1). \<exists>u. map_of (pendingRequests s1) (fst m) = Some (promise (snd m), u)"
    using inb by (auto simp: s1_def delete_conv')
  have 3: "\<forall>k \<in> fst ` set (pendingRequests s1). k \<le> messageId s1"
  proof -
    have "pendingRequests s1 = AList.delete mid (pendingRequests s)" by (simp add: s1_def)
    with dom_delete_subset [of mid "pendingRequests s"]
    have "fst ` set (pendingRequests s1) \<subseteq> fst ` set (pendingRequests s)" by simp
    moreover from wf have "\<forall>k \<in> fst ` set (pendingRequests s). k \<le> messageId s"
      unfolding cw_wf_def by blast
    ultimately show ?thesis unfolding q by blast
  qed
  have 4: "\<not> worker s1 \<longrightarrow> inbox s1 = []"
    using wf unfolding cw_wf_def by (auto simp: s1_def)
  have 6: "\<forall>p \<in> set (cw_refs s1). p \<le> promises s1 \<and> p \<notin> set (settled (trace s1))"
    using wf rsub unfolding cw_wf_def q by blast
  have 7: "\<forall>p \<in> set (settled (trace s1)). p \<le> promises s1"
    using wf unfolding cw_wf_def q by blast
  from 1 2 3 4 5 6 7 show "cw_wf s1" unfolding cw_wf_def by blast
qed

lemma cw_wf_onmessage:
  assumes wf: "cw_wf s" and en: "mid \<in> fst ` set (inbox s)"
  shows "cw_wf (onmessage mid msg s)"
proof -
  from en obtain j where m: "(mid, j) \<in> set (inbox s)" by auto
  with wf obtain u where look: "map_of (pendingRequests s) mid = Some (promise j, u)"
    unfolding cw_wf_def by force
  let ?s1 = "s\<lparr> inbox := filter (\<lambda>m. fst m \<noteq> mid) (inbox s),
                  pendingRequests := AList.delete mid (pendingRequests s) \<rparr>"
  note a = cw_wf_answered [OF wf m]
  show ?thesis
  proof (cases msg)
    case (Done cu osz csz)
    have eq: "onmessage mid msg s = ?s1\<lparr> fetching := fetching ?s1 @ [(promise j, u, cu, osz, csz)] \<rparr>"
      using look Done by (simp add: onmessage_def Let_def)
    have r: "cw_refs (?s1\<lparr> fetching := fetching ?s1 @ [(promise j, u, cu, osz, csz)] \<rparr>)
        = cw_refs ?s1 @ [promise j]"
      by (simp add: cw_refs_def awaiting_reply_def)
    from a show ?thesis unfolding eq cw_wf_def r by auto
  next
    case Err
    have eq: "onmessage mid msg s
        = processNext (?s1\<lparr> trace := trace ?s1 @ [RevokeBlobURL u, Reject (promise j)] \<rparr>)"
      using look Err by (simp add: onmessage_def Let_def)
    show ?thesis unfolding eq
      by (rule cw_wf_processNext, rule cw_wf_settle [where p = "promise j"]) (use a in simp_all)
  qed
qed

lemma distinct_append_sub:
  "distinct xs \<Longrightarrow> set xs \<inter> B = {} \<Longrightarrow> distinct zs \<Longrightarrow> set zs \<subseteq> B \<Longrightarrow> distinct (xs @ zs)"
  by auto

lemma cw_wf_fetched:
  assumes wf: "cw_wf s" and en: "h \<in> set (fetching s)"
  shows "cw_wf (onmessage_fetched h fetched s)"
proof -
  obtain p u cu osz csz where h: "h = (p, u, cu, osz, csz)" by (cases h)
  let ?s1 = "s\<lparr> fetching := remove1 h (fetching s) \<rparr>"
  from wf have df: "distinct (map fst (fetching s))" and dr: "distinct (cw_refs s)"
    unfolding cw_wf_def cw_refs_def by simp_all
  from df have dh: "distinct (fetching s)" by (rule distinct_map [THEN iffD1, THEN conjunct1])
  have pin: "p \<in> set (cw_refs s)"
    using en h by (force simp: cw_refs_def)
  have pnot: "p \<notin> fst ` set (remove1 h (fetching s))"
  proof
    assume "p \<in> fst ` set (remove1 h (fetching s))"
    then have "p \<in> fst ` (set (fetching s) - {h})"
      using dh by (simp add: set_remove1_eq)
    then obtain h' where h': "h' \<in> set (fetching s)" "h' \<noteq> h" "fst h' = p"
      by blast
    with df en h show False
      by (metis distinct_map fst_conv inj_on_contraD)
  qed
  have fsub: "fst ` set (remove1 h (fetching s)) \<subseteq> fst ` set (fetching s)"
    by (intro image_mono set_remove1_subset)
  have sub: "set (cw_refs ?s1) \<subseteq> set (cw_refs s)"
    using fsub by (auto simp: cw_refs_def awaiting_reply_def)
  from df have "inj_on fst (set (fetching s))" by (simp add: distinct_map)
  then have "inj_on fst (set (remove1 h (fetching s)))"
    by (rule inj_on_subset) (rule set_remove1_subset)
  with dh have dF: "distinct (map fst (remove1 h (fetching s)))"
    by (simp add: distinct_map)
  from dr have parts: "distinct (map promise (queue s) @ awaiting_reply s)"
    "set (map promise (queue s) @ awaiting_reply s) \<inter> fst ` set (fetching s) = {}"
    unfolding cw_refs_def by auto
  have r1: "cw_refs ?s1 = (map promise (queue s) @ awaiting_reply s) @ map fst (remove1 h (fetching s))"
    by (simp add: cw_refs_def awaiting_reply_def)
  have "distinct ((map promise (queue s) @ awaiting_reply s) @ map fst (remove1 h (fetching s)))"
    using parts(1) parts(2) dF by (rule distinct_append_sub) (use fsub in simp)
  then have d1: "distinct (cw_refs ?s1)"
    by (simp only: r1)
  have "p \<notin> set (map promise (queue s) @ awaiting_reply s)"
    using parts(2) en h by force
  with pnot have fresh: "p \<notin> set (cw_refs ?s1)"
    unfolding r1 by simp
  have f1: "inbox ?s1 = inbox s" "pendingRequests ?s1 = pendingRequests s" "messageId ?s1 = messageId s"
    "worker ?s1 = worker s" "promises ?s1 = promises s" "trace ?s1 = trace s"
    by simp_all
  have wf1: "cw_wf ?s1"
    unfolding cw_wf_def f1 using wf sub d1 unfolding cw_wf_def by blast
  from wf pin have le: "p \<le> promises ?s1" unfolding cw_wf_def by simp
  show ?thesis
  proof (cases fetched)
    case None
    have eq: "onmessage_fetched h fetched s
        = processNext (?s1\<lparr> trace := trace ?s1 @ [RevokeBlobURL u, Reject p] \<rparr>)"
      using h None by (simp add: onmessage_fetched_def Let_def)
    show ?thesis unfolding eq
      by (rule cw_wf_processNext, rule cw_wf_settle [where p = p]) (use wf1 fresh le in simp_all)
  next
    case (Some buffer)
    have eq: "onmessage_fetched h fetched s
        = processNext (?s1\<lparr> trace := trace ?s1 @
            [RevokeBlobURL u, RevokeBlobURL cu, Resolve p buffer osz csz] \<rparr>)"
      using h Some by (simp add: onmessage_fetched_def Let_def)
    show ?thesis unfolding eq
      by (rule cw_wf_processNext, rule cw_wf_settle [where p = p]) (use wf1 fresh le in simp_all)
  qed
qed

lemma cw_wf_step: "cw_wf s \<Longrightarrow> cw_enabled e s \<Longrightarrow> cw_wf (cw_step e s)"
  by (cases e) (simp_all add: cw_wf_init cw_wf_compress cw_wf_onmessage cw_wf_fetched cw_wf_reset)

lemma cw_wf_run: "cw_wf s \<Longrightarrow> cw_valid es s \<Longrightarrow> cw_wf (cw_run es s)"
  by (induction es arbitrary: s) (simp_all add: cw_wf_step)

lemma set_update_subset: "set (AList.update k v al) \<subseteq> insert (k, v) (set al)"
  by (induction al) auto

lemma set_delete_subset: "set (AList.delete k al) \<subseteq> set al"
  by (auto simp: AList.delete_eq)

lemma cw_laterI:
  "n \<le> promises s \<Longrightarrow> promise ` set (queue s) \<subseteq> F \<union> {k. n < k}
   \<Longrightarrow> (fst \<circ> snd) ` set (pendingRequests s) \<subseteq> F \<union> {k. n < k}
   \<Longrightarrow> fst ` set (fetching s) \<subseteq> F \<union> {k. n < k}
   \<Longrightarrow> set (settled (trace s)) \<subseteq> S \<union> F \<union> {k. n < k} \<Longrightarrow> cw_later F n S s"
  unfolding cw_later_def by blast

lemma cw_laterD:
  assumes "cw_later F n S s"
  shows "n \<le> promises s" "promise ` set (queue s) \<subseteq> F \<union> {k. n < k}"
    "(fst \<circ> snd) ` set (pendingRequests s) \<subseteq> F \<union> {k. n < k}"
    "fst ` set (fetching s) \<subseteq> F \<union> {k. n < k}"
    "set (settled (trace s)) \<subseteq> S \<union> F \<union> {k. n < k}"
  using assms unfolding cw_later_def by blast+

lemma cw_later_executeCompress:
  assumes l: "cw_later F n S s" and j: "promise j \<in> F \<union> {k. n < k}"
  shows "cw_later F n S (snd (executeCompress j s))"
proof (rule cw_laterI)
  let ?s = "snd (executeCompress j s)"
  note d = cw_laterD [OF l]
  show "n \<le> promises ?s" using d(1) by (simp add: executeCompress_fields)
  show "promise ` set (queue ?s) \<subseteq> F \<union> {k. n < k}" using d(2) by (simp add: executeCompress_fields)
  show "fst ` set (fetching ?s) \<subseteq> F \<union> {k. n < k}" using d(4) by (simp add: executeCompress_fields)
  show "set (settled (trace ?s)) \<subseteq> S \<union> F \<union> {k. n < k}" using d(5) by (simp add: executeCompress_fields)
  have "(fst \<circ> snd) ` set (AList.update (Suc (messageId s)) (promise j, Suc (urls s)) (pendingRequests s))
      \<subseteq> (fst \<circ> snd) ` insert (Suc (messageId s), (promise j, Suc (urls s))) (set (pendingRequests s))"
    by (intro image_mono set_update_subset)
  also have "\<dots> = insert (promise j) ((fst \<circ> snd) ` set (pendingRequests s))" by simp
  also have "\<dots> \<subseteq> F \<union> {k. n < k}" using d(3) j by blast
  finally show "(fst \<circ> snd) ` set (pendingRequests ?s) \<subseteq> F \<union> {k. n < k}"
    by (simp only: executeCompress_fields)
qed

lemma cw_later_processNext:
  assumes "cw_later F n S s" shows "cw_later F n S (processNext s)"
proof (cases "queue s")
  case Nil
  with assms show ?thesis by (simp add: processNext_def cw_later_def)
next
  case (Cons j rest)
  have eq: "processNext s = snd (executeCompress j (s\<lparr> isProcessing := False, queue := rest \<rparr>))"
    using Cons by (simp add: processNext_def)
  from assms Cons have "cw_later F n S (s\<lparr> isProcessing := False, queue := rest \<rparr>)"
    "promise j \<in> F \<union> {k. n < k}"
    unfolding cw_later_def by auto
  then show ?thesis unfolding eq by (rule cw_later_executeCompress)
qed

lemma cw_later_settle:
  assumes "cw_later F n S s" "p \<in> F \<union> {k. n < k}" "settled tr = settled (trace s) @ [p]"
  shows "cw_later F n S (s\<lparr> trace := tr \<rparr>)"
  using assms unfolding cw_later_def by auto

lemma cw_later_compress:
  assumes l: "cw_later F n S s" shows "cw_later F n S (snd (CompressionWorker_compress buf q dpi s))"
proof -
  let ?p = "Suc (promises s)"
  let ?j = "\<lparr> fileBuffer = buf, job_quality = q, customDPI = dpi, promise = ?p \<rparr>"
  let ?s1 = "s\<lparr> promises := ?p, trace := trace s @ [Submit ?j] \<rparr>"
  from l have n: "n < ?p" unfolding cw_later_def by simp
  from l have l1: "cw_later F n S ?s1" unfolding cw_later_def by simp
  have le: "cw_later F n S (snd (executeCompress ?j ?s1))"
    by (rule cw_later_executeCompress [OF l1]) (use n in simp)
  show ?thesis
  proof (cases "isProcessing s")
    case True
    then have eq: "snd (CompressionWorker_compress buf q dpi s) = ?s1\<lparr> queue := queue ?s1 @ [?j] \<rparr>"
      by (simp add: CompressionWorker_compress_def Let_def)
    from l1 n show ?thesis unfolding eq cw_later_def by auto
  next
    case False
    show ?thesis
    proof (cases "worker s")
      case True
      with False have "snd (CompressionWorker_compress buf q dpi s) = snd (executeCompress ?j ?s1)"
        by (simp add: CompressionWorker_compress_def Let_def executeCompress_def)
      with le show ?thesis by simp
    next
      case w: False
      let ?s2 = "snd (executeCompress ?j ?s1)"
      from False w have eq: "snd (CompressionWorker_compress buf q dpi s)
          = ?s2\<lparr> trace := trace ?s2 @ [Reject ?p] \<rparr>"
        by (simp add: CompressionWorker_compress_def Let_def executeCompress_def)
      show ?thesis unfolding eq
        by (rule cw_later_settle [OF le, where p = "?p"]) (use n in simp_all)
    qed
  qed
qed

lemma cw_later_onmessage:
  assumes l: "cw_later F n S s" shows "cw_later F n S (onmessage mid msg s)"
proof (cases "map_of (pendingRequests s) mid")
  case None
  let ?s0 = "s\<lparr> inbox := filter (\<lambda>m. fst m \<noteq> mid) (inbox s) \<rparr>"
  have eq: "onmessage mid msg s = processNext (?s0\<lparr> trace := trace ?s0 @ [Warn mid] \<rparr>)"
    using None by (simp add: onmessage_def Let_def)
  from l have "cw_later F n S (?s0\<lparr> trace := trace ?s0 @ [Warn mid] \<rparr>)"
    unfolding cw_later_def by simp
  then show ?thesis unfolding eq by (rule cw_later_processNext)
next
  case (Some pu)
  obtain p u where pu: "pu = (p, u)" by (cases pu)
  let ?s1 = "s\<lparr> inbox := filter (\<lambda>m. fst m \<noteq> mid) (inbox s),
                  pendingRequests := AList.delete mid (pendingRequests s) \<rparr>"
  from Some pu have "(mid, (p, u)) \<in> set (pendingRequests s)" by (simp add: map_of_SomeD)
  then have "p \<in> (fst \<circ> snd) ` set (pendingRequests s)" by force
  with l have p: "p \<in> F \<union> {k. n < k}" unfolding cw_later_def by blast
  note d = cw_laterD [OF l]
  have "(fst \<circ> snd) ` set (AList.delete mid (pendingRequests s)) \<subseteq> (fst \<circ> snd) ` set (pendingRequests s)"
    by (intro image_mono set_delete_subset)
  with d(3) have "(fst \<circ> snd) ` set (AList.delete mid (pendingRequests s)) \<subseteq> F \<union> {k. n < k}"
    by (rule subset_trans [rotated])
  with d have l1: "cw_later F n S ?s1" by (intro cw_laterI) simp_all
  show ?thesis
  proof (cases msg)
    case (Done cu osz csz)
    have eq: "onmessage mid msg s = ?s1\<lparr> fetching := fetching ?s1 @ [(p, u, cu, osz, csz)] \<rparr>"
      using Some pu Done by (simp add: onmessage_def Let_def)
    from cw_laterD [OF l1] p show ?thesis unfolding eq by (intro cw_laterI) simp_all
  next
    case Err
    have eq: "onmessage mid msg s
        = processNext (?s1\<lparr> trace := trace ?s1 @ [RevokeBlobURL u, Reject p] \<rparr>)"
      using Some pu Err by (simp add: onmessage_def Let_def)
    show ?thesis unfolding eq
      by (rule cw_later_processNext, rule cw_later_settle [OF l1 p]) simp
  qed
qed

lemma cw_later_fetched:
  assumes l: "cw_later F n S s" and en: "h \<in> set (fetching s)"
  shows "cw_later F n S (onmessage_fetched h fetched s)"
proof -
  obtain p u cu osz csz where h: "h = (p, u, cu, osz, csz)" by (cases h)
  let ?s1 = "s\<lparr> fetching := remove1 h (fetching s) \<rparr>"
  from en h have "p \<in> fst ` set (fetching s)" by force
  with l have p: "p \<in> F \<union> {k. n < k}" unfolding cw_later_def by blast
  note d = cw_laterD [OF l]
  have "fst ` set (remove1 h (fetching s)) \<subseteq> fst ` set (fetching s)"
    by (intro image_mono set_remove1_subset)
  with d(4) have "fst ` set (remove1 h (fetching s)) \<subseteq> F \<union> {k. n < k}"
    by (rule subset_trans [rotated])
  with d have l1: "cw_later F n S ?s1" by (intro cw_laterI) simp_all
  show ?thesis
  proof (cases fetched)
    case None
    have eq: "onmessage_fetched h fetched s
        = processNext (?s1\<lparr> trace := trace ?s1 @ [RevokeBlobURL u, Reject p] \<rparr>)"
      using h None by (simp add: onmessage_fetched_def Let_def)
    show ?thesis unfolding eq
      by (rule cw_later_processNext, rule cw_later_settle [OF l1 p]) simp
  next
    case (Some buffer)
    have eq: "onmessage_fetched h fetched s
        = processNext (?s1\<lparr> trace := trace ?s1 @
            [RevokeBlobURL u, RevokeBlobURL cu, Resolve p buffer osz csz] \<rparr>)"
      using h Some by (simp add: onmessage_fetched_def Let_def)
    show ?thesis unfolding eq
      by (rule cw_later_processNext, rule cw_later_settle [OF l1 p]) simp
  qed
qed

lemma cw_later_step: "cw_later F n S s \<Longrightarrow> cw_enabled e s \<Longrightarrow> cw_later F n S (cw_step e s)"
proof (cases e)
  case Init
  assume "cw_later F n S s"
  then show ?thesis unfolding Init cw_later_def by (simp add: init_fields)
next
  case Reset
  assume "cw_later F n S s"
  then show ?thesis unfolding Reset cw_later_def by (simp add: reset_fields)
qed (simp_all add: cw_later_compress cw_later_onmessage cw_later_fetched)

lemma cw_later_run: "cw_later F n S s \<Longrightarrow> cw_valid es s \<Longrightarrow> cw_later F n S (cw_run es s)"
  by (induction es arbitrary: s) (simp_all add: cw_later_step)

lemma cw_later_reset:
  "cw_later (fst ` set (fetching s)) (promises s) (set (settled (trace s))) (CompressionWorker_reset s)"
  by (rule cw_laterI) (auto simp: reset_fields)

lemma reset_abandons_aux:
  assumes wf: "cw_wf s" and p: "p \<in> promise ` set (queue s) \<union> set (awaiting_reply s)"
    and v: "cw_valid es (CompressionWorker_reset s)"
  shows "p \<notin> set (settled (trace (cw_run es (CompressionWorker_reset s))))"
proof -
  from p have pr: "p \<in> set (cw_refs s)" unfolding cw_refs_def by auto
  with wf have le: "p \<le> promises s" and uns: "p \<notin> set (settled (trace s))"
    unfolding cw_wf_def by blast+
  from wf have "distinct (cw_refs s)" unfolding cw_wf_def by blast
  with p have nf: "p \<notin> fst ` set (fetching s)"
    unfolding cw_refs_def by auto
  from cw_later_run [OF cw_later_reset v]
  have "set (settled (trace (cw_run es (CompressionWorker_reset s))))
      \<subseteq> set (settled (trace s)) \<union> fst ` set (fetching s) \<union> {k. promises s < k}"
    unfolding cw_later_def by blast
  with le uns nf show ?thesis by auto
qed

text \<open>
  What a reset does achieve. Let the manager be in any state it can reach. After
  \<open>reset()\<close> the map of pending requests and the queue are empty and the manager is not
  processing. Every job that was queued, or was with the worker waiting for its reply, is
  abandoned: its promise is not settled at the reset and is not settled by anything that
  happens afterwards. A submission that follows (\<open>init()\<close>, then \<open>compress\<close>, as every
  caller does) is posted to the new worker at once, as message 1.
\<close>

lemma reset_abandons:
  "cw_valid es CompressionWorker_new \<longrightarrow>
     (let s = cw_run es CompressionWorker_new;
          r = CompressionWorker_reset s;
          r' = snd (CompressionWorker_compress buf q dpi (CompressionWorker_init r));
          j = \<lparr> fileBuffer = buf, job_quality = q, customDPI = dpi, promise = Suc (promises s) \<rparr>
      in pendingRequests r = [] \<and> queue r = [] \<and> inbox r = [] \<and> \<not> isProcessing r \<and> \<not> worker r
       \<and> (\<forall>p \<in> promise ` set (queue s) \<union> set (awaiting_reply s).
            p \<notin> set (settled (trace r))
          \<and> (\<forall>es'. cw_valid es' r \<longrightarrow> p \<notin> set (settled (trace (cw_run es' r)))))
       \<and> isProcessing r' \<and> queue r' = [] \<and> inbox r' = [(1, j)]
       \<and> posted (trace r') = posted (trace s) @ [j])"
proof
  assume v: "cw_valid es CompressionWorker_new"
  let ?s = "cw_run es CompressionWorker_new"
  have wf: "cw_wf ?s" by (rule cw_wf_run [OF cw_wf_new v])
  have a: "\<forall>p \<in> promise ` set (queue ?s) \<union> set (awaiting_reply ?s).
            p \<notin> set (settled (trace (CompressionWorker_reset ?s)))
          \<and> (\<forall>es'. cw_valid es' (CompressionWorker_reset ?s) \<longrightarrow>
                p \<notin> set (settled (trace (cw_run es' (CompressionWorker_reset ?s)))))"
    using reset_abandons_aux [OF wf] reset_abandons_aux [OF wf, of _ "[]"] by auto
  have b: "isProcessing (snd (CompressionWorker_compress buf q dpi (CompressionWorker_init (CompressionWorker_reset ?s))))"
    "queue (snd (CompressionWorker_compress buf q dpi (CompressionWorker_init (CompressionWorker_reset ?s)))) = []"
    "inbox (snd (CompressionWorker_compress buf q dpi (CompressionWorker_init (CompressionWorker_reset ?s))))
       = [(1, \<lparr> fileBuffer = buf, job_quality = q, customDPI = dpi, promise = Suc (promises ?s) \<rparr>)]"
    "posted (trace (snd (CompressionWorker_compress buf q dpi (CompressionWorker_init (CompressionWorker_reset ?s)))))
       = posted (trace ?s) @ [\<lparr> fileBuffer = buf, job_quality = q, customDPI = dpi, promise = Suc (promises ?s) \<rparr>]"
    using reset_inbox [OF wf]
    by (simp_all add: compress_idle init_fields reset_fields executeCompress_fields)
  show "let s = cw_run es CompressionWorker_new;
          r = CompressionWorker_reset s;
          r' = snd (CompressionWorker_compress buf q dpi (CompressionWorker_init r));
          j = \<lparr> fileBuffer = buf, job_quality = q, customDPI = dpi, promise = Suc (promises s) \<rparr>
      in pendingRequests r = [] \<and> queue r = [] \<and> inbox r = [] \<and> \<not> isProcessing r \<and> \<not> worker r
       \<and> (\<forall>p \<in> promise ` set (queue s) \<union> set (awaiting_reply s).
            p \<notin> set (settled (trace r))
          \<and> (\<forall>es'. cw_valid es' r \<longrightarrow> p \<notin> set (settled (trace (cw_run es' r)))))
       \<and> isProcessing r' \<and> queue r' = [] \<and> inbox r' = [(1, j)]
       \<and> posted (trace r') = posted (trace s) @ [j]"
    unfolding Let_def using a b reset_inbox [OF wf] by (simp add: reset_fields)
qed

lemma reset_abandons_witness:
  "cw_valid three_submissions CompressionWorker_new
   \<and> awaiting_reply (cw_run three_submissions CompressionWorker_new) = [1]
   \<and> map promise (queue (cw_run three_submissions CompressionWorker_new)) = [2, 3]
   \<and> pendingRequests (CompressionWorker_reset (cw_run three_submissions CompressionWorker_new)) = []
   \<and> queue (CompressionWorker_reset (cw_run three_submissions CompressionWorker_new)) = []
   \<and> \<not> isProcessing (CompressionWorker_reset (cw_run three_submissions CompressionWorker_new))
   \<and> cw_valid after_reset (CompressionWorker_reset (cw_run three_submissions CompressionWorker_new))
   \<and> 1 \<notin> set (settled (trace (cw_run after_reset
          (CompressionWorker_reset (cw_run three_submissions CompressionWorker_new)))))
   \<and> 2 \<notin> set (settled (trace (cw_run after_reset
          (CompressionWorker_reset (cw_run three_submissions CompressionWorker_new)))))
   \<and> 3 \<notin> set (settled (trace (cw_run after_reset
          (CompressionWorker_reset (cw_run three_submissions CompressionWorker_new)))))
   \<and> settled (trace (cw_run after_reset
          (CompressionWorker_reset (cw_run three_submissions CompressionWorker_new)))) = [4]
   \<and> map job_quality (posted (trace (cw_run (take 2 after_reset)
          (CompressionWorker_reset (cw_run three_submissions CompressionWorker_new))))) = [''low'', ''high'']"
proof -
  let ?s = "cw_run three_submissions CompressionWorker_new"
  let ?r = "CompressionWorker_reset ?s"
  have h: "cw_valid three_submissions CompressionWorker_new" by code_simp
  have m: "1 \<in> promise ` set (queue ?s) \<union> set (awaiting_reply ?s)"
    "2 \<in> promise ` set (queue ?s) \<union> set (awaiting_reply ?s)"
    "3 \<in> promise ` set (queue ?s) \<union> set (awaiting_reply ?s)"
    by code_simp+
  have v: "cw_valid after_reset ?r" by code_simp
  note t = reset_abandons [of three_submissions "[2]" "''high''" None, THEN mp, OF h, unfolded Let_def]
  from t have "pendingRequests ?r = []" "queue ?r = []" "\<not> isProcessing ?r" by blast+
  moreover from t m v have "1 \<notin> set (settled (trace (cw_run after_reset ?r)))"
    "2 \<notin> set (settled (trace (cw_run after_reset ?r)))"
    "3 \<notin> set (settled (trace (cw_run after_reset ?r)))"
    by blast+
  moreover have "awaiting_reply ?s = [1]" "map promise (queue ?s) = [2, 3]"
    "settled (trace (cw_run after_reset ?r)) = [4]"
    "map job_quality (posted (trace (cw_run (take 2 after_reset) ?r))) = [''low'', ''high'']"
    by code_simp+
  ultimately show ?thesis using h v by blast
qed

text \<open>
  C7. Not every job in flight is abandoned by a reset. In \<open>reply_being_fetched\<close> two jobs
  are queued and one is in flight: it has been posted, its promise is unsettled and
  \<open>isProcessing\<close> is set, and its reply has arrived, so that its \<open>onmessage\<close> call is
  suspended at \<open>await fetch(compressedURL)\<close>. \<open>reset()\<close> empties the map and the queue
  and clears the flag, and the two queued jobs are abandoned, but the suspended call is not
  reached: when the fetch completes it resolves promise 1 (it would reject it had the fetch
  failed).
\<close>

theorem reset_settles_job_in_flight:
  "cw_valid reply_being_fetched CompressionWorker_new
   \<and> isProcessing (cw_run reply_being_fetched CompressionWorker_new)
   \<and> map promise (in_flight (trace (cw_run reply_being_fetched CompressionWorker_new))) = [1]
   \<and> map promise (queue (cw_run reply_being_fetched CompressionWorker_new)) = [2, 3]
   \<and> settled (trace (cw_run reply_being_fetched CompressionWorker_new)) = []
   \<and> pendingRequests (CompressionWorker_reset (cw_run reply_being_fetched CompressionWorker_new)) = []
   \<and> queue (CompressionWorker_reset (cw_run reply_being_fetched CompressionWorker_new)) = []
   \<and> \<not> isProcessing (CompressionWorker_reset (cw_run reply_being_fetched CompressionWorker_new))
   \<and> cw_valid [Fetched (1, 1, 9, 1, 1) (Some [5])]
        (CompressionWorker_reset (cw_run reply_being_fetched CompressionWorker_new))
   \<and> settled (trace (cw_run [Fetched (1, 1, 9, 1, 1) (Some [5])]
        (CompressionWorker_reset (cw_run reply_being_fetched CompressionWorker_new)))) = [1]
   \<and> settled (trace (cw_run [Fetched (1, 1, 9, 1, 1) None]
        (CompressionWorker_reset (cw_run reply_being_fetched CompressionWorker_new)))) = [1]"
  by code_simp

section \<open>Properties of the controller\<close>

subsection \<open>Effects and fields\<close>

lemma bumps_append [simp]: "bumps (a @ b) = bumps a + bumps b"
  by (induction a rule: bumps.induct) simp_all

lemma compress_calls_append [simp]: "compress_calls (a @ b) = compress_calls a @ compress_calls b"
  by (induction a rule: compress_calls.induct) simp_all

lemma bumps_map_unlock [simp]: "bumps (map (\<lambda>q. UnlockQuality q h) qs) = 0"
  by (induction qs) simp_all

lemma bumps_map_revoke [simp]:
  "bumps (map RevokeObjectURL us) = 0" "bumps (map (RevokeObjectURL \<circ> g) xs) = 0"
  by (induction us, simp_all) (induction xs, simp_all)

lemma emit_fields [simp]:
  "cur_file (emit es st) = cur_file st"
  "quality (emit es st) = quality st"
  "previewRequestId (emit es st) = previewRequestId st"
  "preloadPaused (emit es st) = preloadPaused st"
  "pendingQualities (emit es st) = pendingQualities st"
  "isPreloading (emit es st) = isPreloading st"
  "cache (emit es st) = cache st"
  "object_urls (emit es st) = object_urls st"
  "effects (emit es st) = effects st @ es"
  by (simp_all add: emit_def)

lemma compress_calls_map_unlock [simp]: "compress_calls (map (\<lambda>q. UnlockQuality q h) qs) = []"
  by (induction qs) simp_all

lemma unlockRemaining_fields [simp]:
  "cur_file (unlockRemaining st) = cur_file st"
  "quality (unlockRemaining st) = quality st"
  "previewRequestId (unlockRemaining st) = previewRequestId st"
  "preloadPaused (unlockRemaining st) = preloadPaused st"
  "pendingQualities (unlockRemaining st) = pendingQualities st"
  "isPreloading (unlockRemaining st) = isPreloading st"
  "cache (unlockRemaining st) = cache st"
  "object_urls (unlockRemaining st) = object_urls st"
  "bumps (effects (unlockRemaining st)) = bumps (effects st)"
  "compress_calls (effects (unlockRemaining st)) = compress_calls (effects st)"
  by (simp_all add: unlockRemaining_def)

lemma createObjectURL_fields [simp]:
  "fst (createObjectURL st) = Suc (object_urls st)"
  "cur_file (snd (createObjectURL st)) = cur_file st"
  "quality (snd (createObjectURL st)) = quality st"
  "previewRequestId (snd (createObjectURL st)) = previewRequestId st"
  "preloadPaused (snd (createObjectURL st)) = preloadPaused st"
  "pendingQualities (snd (createObjectURL st)) = pendingQualities st"
  "isPreloading (snd (createObjectURL st)) = isPreloading st"
  "cache (snd (createObjectURL st)) = cache st"
  "object_urls (snd (createObjectURL st)) = Suc (object_urls st)"
  "effects (snd (createObjectURL st)) = effects st @ [CreateObjectURL (Suc (object_urls st))]"
  by (simp_all add: createObjectURL_def Let_def)

lemma has_get: "PreviewCache_has q c \<longleftrightarrow> PreviewCache_get q c \<noteq> None"
  by (simp add: PreviewCache_has_def PreviewCache_get_def)

lemma get_set_same: "PreviewCache_get q (PreviewCache_set q b u c) = Some (b, u)"
  by (simp add: PreviewCache_get_def PreviewCache_set_def update_conv')

lemma has_set_other: "q' \<noteq> q \<Longrightarrow> PreviewCache_has q' (PreviewCache_set q b u c) = PreviewCache_has q' c"
  by (simp add: PreviewCache_has_def PreviewCache_set_def update_conv')

lemma has_set_rest:
  "q \<notin> set rest \<Longrightarrow> q' \<in> set rest \<Longrightarrow>
     PreviewCache_has q' (PreviewCache_set q b u c) = PreviewCache_has q' c"
  by (rule has_set_other) auto

subsection \<open>The generation counter\<close>

lemma counted_refl: "counted st st"
  by (simp add: counted_def)

lemma counted_trans: "counted a b \<Longrightarrow> counted b c \<Longrightarrow> counted a c"
  by (auto simp: counted_def)

lemma counted_quiet:
  "previewRequestId st' = previewRequestId st \<Longrightarrow> bumps (effects st') = bumps (effects st) \<Longrightarrow> counted st st'"
  by (simp add: counted_def)

lemma counted_unlockRemaining: "counted st ((unlockRemaining st)\<lparr> isPreloading := b \<rparr>)"
  by (simp add: counted_def)

lemma counted_preload_loop: "counted st (fst (preload_loop cf fb qs st))"
proof (induction qs arbitrary: st)
  case Nil
  show ?case by (simp add: counted_def)
next
  case (Cons q rest)
  show ?case
  proof (cases "cur_file st \<noteq> Some cf \<or> preloadPaused st")
    case True
    then show ?thesis using counted_unlockRemaining [of st False] by auto
  next
    case False
    show ?thesis
    proof (cases "PreviewCache_get q (cache st)")
      case (Some cached)
      have "counted st (emit [UnlockQuality q (SizeText (length (fst cached)))] st)"
        by (simp add: counted_def)
      from counted_trans [OF this Cons.IH] show ?thesis using False Some by simp
    next
      case None
      show ?thesis
      proof (cases "q \<in> pendingQualities st")
        case True
        with False None Cons.IH [of st] show ?thesis by simp
      next
        case nin: False
        with False None show ?thesis by (simp add: counted_def)
      qed
    qed
  qed
qed

lemma counted_preloadAllQualities: "counted st (fst (preloadAllQualities st))"
  by (simp add: preloadAllQualities_def counted_def Let_def split: option.splits)

lemma counted_then_preload:
  assumes "counted st st1" shows "counted st (fst (preloadAllQualities st1))"
  using assms counted_preloadAllQualities by (rule counted_trans)

lemma counted_then_loop:
  assumes "counted st st1" shows "counted st (fst (preload_loop cf fb qs st1))"
  using assms counted_preload_loop by (rule counted_trans)

lemma counted_catch: "counted st (fst (loadQuality_catch rid st))"
  by (simp add: loadQuality_catch_def counted_def)

lemma counted_resume: "counted st (fst (resume k a st))"
proof (induction k a st rule: resume.induct)
qed (auto simp: counted_catch counted_preload_loop Let_def showCachedPreview_end_def
      intro!: counted_then_preload counted_then_loop counted_quiet)

lemma counted_showCachedPreview: "counted st (fst (showCachedPreview key st))"
  by (auto simp: showCachedPreview_def showCachedPreview_end_def
      intro!: counted_then_preload counted_quiet split: option.splits)

lemma counted_loadQualityWithPriority: "counted st (fst (loadQualityWithPriority st))"
  by (auto simp: loadQualityWithPriority_def Let_def loadQuality_catch_def
      intro!: counted_quiet split: option.splits)

lemma counted_bump:
  "previewRequestId st1 = Suc (previewRequestId st) \<Longrightarrow> bumps (effects st1) = Suc (bumps (effects st))
   \<Longrightarrow> counted st st1"
  by (simp add: counted_def)

lemma counted_handleQualityChange: "counted st (fst (handleQualityChange st))"
proof -
  let ?st1 = "emit [Bump, HidePreviewLoading]
                  (st\<lparr> preloadPaused := True, previewRequestId := previewRequestId st + 1 \<rparr>)"
  have 1: "counted st ?st1" by (rule counted_bump) simp_all
  show ?thesis
    unfolding handleQualityChange_def Let_def
    using counted_trans [OF 1 counted_showCachedPreview] counted_trans [OF 1 counted_loadQualityWithPriority]
    by simp
qed

lemma counted_click: "counted st (fst (click q st))"
proof -
  have 1: "counted st ((emit [SetQualityActive q] st)\<lparr> quality := q \<rparr>)"
    by (rule counted_quiet) simp_all
  show ?thesis
    unfolding click_def Let_def
    using counted_trans [OF 1 counted_handleQualityChange] 1 by simp
qed

lemma counted_handleFile: "counted st (fst (handleFile f st))"
  by (auto simp: handleFile_def Let_def PreviewCache_clear_def counted_def split: option.splits)

lemma counted_reset: "counted st (PDFCompressor_reset st)"
  by (simp add: PDFCompressor_reset_def Let_def PreviewCache_clear_def counted_def)

lemma counted_step: "counted (fst s) (fst (ui_step e s))"
  by (cases e)
    (simp_all add: park_def counted_click counted_handleFile counted_reset counted_resume)

lemma counted_run: "counted (fst s) (fst (ui_run es s))"
proof (induction es arbitrary: s)
  case Nil
  show ?case by (simp add: counted_refl)
next
  case (Cons e es)
  from counted_trans [OF counted_step Cons.IH] show ?case by simp
qed

text \<open>
  C5. Capture the generation counter in any state and let anything happen afterwards: clicks,
  files chosen, resets, continuations going on, in any order. The staleness test
  \<open>requestId !== this.previewRequestId\<close> on the captured value is true exactly when the
  counter has been incremented at least once since the capture, and the counter has moved by
  the number of increments.
\<close>

theorem stale_iff_bumped:
  "(isOutdated (previewRequestId st) (fst (ui_run es (st, pool)))
      \<longleftrightarrow> bumps (effects st) < bumps (effects (fst (ui_run es (st, pool)))))
   \<and> previewRequestId (fst (ui_run es (st, pool)))
       = previewRequestId st + (bumps (effects (fst (ui_run es (st, pool)))) - bumps (effects st))"
  using counted_run [of "(st, pool)" es] by (auto simp: counted_def isOutdated_def)

theorem stale_iff_bumped_witness:
  "bumps (effects (fst (ui_run load_events (PDFCompressor_new, [])))) = 1
   \<and> bumps (effects (fst (ui_run [Resume (PL_arrayBuffer sample_pdf) (Bytes [1, 2, 3, 4])]
        (ui_run load_events (PDFCompressor_new, []))))) = 1
   \<and> \<not> isOutdated (previewRequestId (fst (ui_run load_events (PDFCompressor_new, []))))
        (fst (ui_run [Resume (PL_arrayBuffer sample_pdf) (Bytes [1, 2, 3, 4])]
           (ui_run load_events (PDFCompressor_new, []))))
   \<and> bumps (effects (fst (ui_run [Click ''original'', Click ''original'']
        (ui_run load_events (PDFCompressor_new, []))))) = 3
   \<and> isOutdated (previewRequestId (fst (ui_run load_events (PDFCompressor_new, []))))
        (fst (ui_run [Click ''original'', Click ''original''] (ui_run load_events (PDFCompressor_new, []))))"
proof -
  let ?A = "fst (ui_run load_events (PDFCompressor_new, []))"
  let ?P = "snd (ui_run load_events (PDFCompressor_new, []))"
  have b0: "bumps (effects ?A) = 1" by code_simp
  have b1: "bumps (effects (fst (ui_run [Resume (PL_arrayBuffer sample_pdf) (Bytes [1, 2, 3, 4])] (?A, ?P)))) = 1"
    by code_simp
  have b2: "bumps (effects (fst (ui_run [Click ''original'', Click ''original''] (?A, ?P)))) = 3"
    by code_simp
  from stale_iff_bumped [of ?A "[Resume (PL_arrayBuffer sample_pdf) (Bytes [1, 2, 3, 4])]" ?P] b0 b1
  have n: "\<not> isOutdated (previewRequestId ?A)
      (fst (ui_run [Resume (PL_arrayBuffer sample_pdf) (Bytes [1, 2, 3, 4])] (?A, ?P)))"
    by simp
  from stale_iff_bumped [of ?A "[Click ''original'', Click ''original'']" ?P] b0 b2
  have y: "isOutdated (previewRequestId ?A) (fst (ui_run [Click ''original'', Click ''original''] (?A, ?P)))"
    by simp
  from b0 b1 b2 n y show ?thesis by simp
qed

subsection \<open>A result that arrives stale\<close>

text \<open>
  C6. When the result of a user-driven request arrives and the staleness test is true, the
  continuation of \<open>loadQualityWithPriority\<close> creates the object URL, writes the result into the
  cache under the requested quality, hides the loading overlay and ends: it shows no section,
  renders nothing, updates no size and unlocks nothing. The second part says the same for a
  request whose generation was captured in a state \<open>st0\<close> and whose result arrives after
  any events that incremented the counter.
\<close>

theorem stale_result_cached_not_shown:
  "(isOutdated requestId st \<longrightarrow>
      (let r = resume (LQ_compress requestId q) (Bytes buffer) st;
           u = Suc (object_urls st)
       in snd r = Finished
        \<and> PreviewCache_get q (cache (fst r)) = Some (buffer, u)
        \<and> effects (fst r) = effects st @ [CreateObjectURL u, CacheWrite q u, HidePreviewLoading]
        \<and> \<not> list_ex presentation (drop (length (effects st)) (effects (fst r)))))
   \<and> (bumps (effects st0) < bumps (effects (fst (ui_run es (st0, pool)))) \<longrightarrow>
      (let st1 = fst (ui_run es (st0, pool));
           r = resume (LQ_compress (previewRequestId st0) q) (Bytes buffer) st1
       in snd r = Finished
        \<and> PreviewCache_get q (cache (fst r)) = Some (buffer, Suc (object_urls st1))
        \<and> \<not> list_ex presentation (drop (length (effects st1)) (effects (fst r)))))"
proof -
  have seg: "snd (resume (LQ_compress rid q) (Bytes buffer) s) = Finished
        \<and> PreviewCache_get q (cache (fst (resume (LQ_compress rid q) (Bytes buffer) s)))
            = Some (buffer, Suc (object_urls s))
        \<and> effects (fst (resume (LQ_compress rid q) (Bytes buffer) s))
            = effects s @ [CreateObjectURL (Suc (object_urls s)), CacheWrite q (Suc (object_urls s)),
                HidePreviewLoading]"
    if "isOutdated rid s" for rid s
    using that by (simp add: Let_def isOutdated_def get_set_same)
  have "isOutdated (previewRequestId st0) (fst (ui_run es (st0, pool)))"
    if "bumps (effects st0) < bumps (effects (fst (ui_run es (st0, pool))))"
    using that counted_run [of "(st0, pool)" es] by (auto simp: counted_def isOutdated_def)
  with seg show ?thesis by (simp add: Let_def)
qed

theorem stale_result_cached_not_shown_witness:
  "isOutdated 3 (fst (ui_run (take 14 session_overwrite) (PDFCompressor_new, [])))
   \<and> (let r = resume (LQ_compress 3 ''low'') (Bytes [7])
                (fst (ui_run (take 14 session_overwrite) (PDFCompressor_new, [])));
          u = Suc (object_urls (fst (ui_run (take 14 session_overwrite) (PDFCompressor_new, []))))
      in snd r = Finished
       \<and> PreviewCache_get ''low'' (cache (fst r)) = Some ([7], u)
       \<and> effects (fst r)
           = effects (fst (ui_run (take 14 session_overwrite) (PDFCompressor_new, []))) @
             [CreateObjectURL u, CacheWrite ''low'' u, HidePreviewLoading]
       \<and> \<not> list_ex presentation
            (drop (length (effects (fst (ui_run (take 14 session_overwrite) (PDFCompressor_new, [])))))
               (effects (fst r))))"
proof -
  have h: "isOutdated 3 (fst (ui_run (take 14 session_overwrite) (PDFCompressor_new, [])))"
    by code_simp
  from stale_result_cached_not_shown [THEN conjunct1, THEN mp, OF h] h
  show ?thesis by (rule conjI [rotated])
qed

subsection \<open>Overwriting a cache entry\<close>

text \<open>
  C3. \<open>set\<close> on a key that is present replaces the entry and revokes nothing: after two
  \<open>set\<close> calls for \<open>'low'\<close> with the URLs 2 and 3, \<open>clear\<close> revokes 3 only. The
  session \<open>session_overwrite\<close> reaches that overwrite through the page: the user's job
  and the preload's job for \<open>'low'\<close> both deliver, URL 2 is replaced by URL 3, and after the
  final reset the URLs 1 and 3 have been revoked and URL 2 never is.
\<close>

theorem overwrite_leaks_url:
  "PreviewCache_set ''low'' [8] 3 (PreviewCache_set ''low'' [7] 2 []) = [(''low'', [8], 3)]
   \<and> fst (PreviewCache_clear (PreviewCache_set ''low'' [8] 3 (PreviewCache_set ''low'' [7] 2 []))) = [3]
   \<and> ui_valid session_overwrite (PDFCompressor_new, [])
   \<and> filter bookkeeping (effects (fst (ui_run session_overwrite (PDFCompressor_new, []))))
       = [CacheWrite ''original'' 1, PendingAdd ''low'', PendingDelete ''low'', PendingAdd ''low'',
          CacheWrite ''low'' 2, PendingDelete ''low'', CacheWrite ''low'' 3]
   \<and> filter url_effect (effects (fst (ui_run session_overwrite (PDFCompressor_new, []))))
       = [CreateObjectURL 1, CreateObjectURL 2, CreateObjectURL 3, RevokeObjectURL 1, RevokeObjectURL 3]
   \<and> cache (fst (ui_run session_overwrite (PDFCompressor_new, []))) = []"
  by code_simp

subsection \<open>Resuming the preload\<close>

lemma loop_isolated:
  assumes "distinct qs" "cur_file st = Some cf" "\<not> preloadPaused st" "2 * length qs \<le> length as"
  shows "snd (drive as (preload_loop cf fb qs st)) = Finished
       \<and> \<not> isPreloading (fst (drive as (preload_loop cf fb qs st)))
       \<and> compress_calls (effects (fst (drive as (preload_loop cf fb qs st))))
           = compress_calls (effects st) @
             map (Pair fb) (filter (\<lambda>q. \<not> PreviewCache_has q (cache st) \<and> q \<notin> pendingQualities st) qs)"
  using assms
proof (induction qs arbitrary: st as)
  case Nil
  then show ?case by simp
next
  case (Cons q rest)
  let ?P = "\<lambda>s q. \<not> PreviewCache_has q (cache s) \<and> q \<notin> pendingQualities s"
  from Cons.prems have d: "distinct rest" "q \<notin> set rest" by simp_all
  show ?case
  proof (cases "PreviewCache_get q (cache st)")
    case (Some cached)
    let ?st1 = "emit [UnlockQuality q (SizeText (length (fst cached)))] st"
    have eq: "preload_loop cf fb (q # rest) st = preload_loop cf fb rest ?st1"
      using Cons.prems Some by simp
    have "2 * length rest \<le> length as" using Cons.prems by simp
    from Cons.IH [OF d(1) _ _ this, of ?st1] Cons.prems Some
    show ?thesis unfolding eq by (simp add: has_get)
  next
    case None
    show ?thesis
    proof (cases "q \<in> pendingQualities st")
      case True
      have eq: "preload_loop cf fb (q # rest) st = preload_loop cf fb rest st"
        using Cons.prems None True by simp
      have "2 * length rest \<le> length as" using Cons.prems by simp
      from Cons.IH [OF d(1) Cons.prems(2,3) this] True
      show ?thesis unfolding eq by simp
    next
      case False
      let ?st1 = "emit [PendingAdd q, WorkerCompress fb q]
                       (st\<lparr> pendingQualities := insert q (pendingQualities st) \<rparr>)"
      have eq: "preload_loop cf fb (q # rest) st = (?st1, PL_compress cf fb q rest)"
        using Cons.prems None False by simp
      from Cons.prems obtain a a' as' where as: "as = a # a' # as'"
        by (cases as; cases "tl as") auto
      with Cons.prems have len: "2 * length rest \<le> length as'" by simp
      obtain st3 where r: "resume (PL_compress cf fb q rest) a ?st1 = (st3, PL_delay cf fb rest)"
        and st3: "cur_file st3 = Some cf" "\<not> preloadPaused st3"
          "pendingQualities st3 = pendingQualities st"
          "\<forall>q' \<in> set rest. PreviewCache_has q' (cache st3) = PreviewCache_has q' (cache st)"
          "compress_calls (effects st3) = compress_calls (effects st) @ [(fb, q)]"
      proof (cases a)
        case (Bytes buffer)
        show ?thesis
          by (rule that [of "fst (resume (PL_compress cf fb q rest) a ?st1)"])
            (use Bytes Cons.prems False d in \<open>auto simp: Let_def has_set_rest\<close>)
      next
        case Ok
        show ?thesis
          by (rule that [of "fst (resume (PL_compress cf fb q rest) a ?st1)"])
            (use Ok Cons.prems False in auto)
      next
        case Failed
        show ?thesis
          by (rule that [of "fst (resume (PL_compress cf fb q rest) a ?st1)"])
            (use Failed Cons.prems False in auto)
      qed
      have dr: "drive as (preload_loop cf fb (q # rest) st) = drive as' (preload_loop cf fb rest st3)"
        unfolding eq as by (simp add: r)
      have f: "filter (?P st3) rest = filter (?P st) rest"
        using st3 by (intro filter_cong) auto
      from Cons.IH [OF d(1) st3(1,2) len] None False
      show ?thesis unfolding dr f by (simp add: st3 has_get)
    qed
  qed
qed

lemma distinct_qualities: "distinct qualities"
  by (simp add: qualities_def)

text \<open>
  What the resumed loop does guarantee. Start \<open>preloadAllQualities\<close> in a state with a
  file, not paused and with no loop running, and let it run on its own, every job answered
  (resolved or rejected). It ends, and the levels it submits are exactly the levels of the
  list that are neither cached nor in \<open>pendingQualities\<close> at the start, in the order of
  the list.
\<close>

lemma resume_submits_uncached:
  "cur_file st = Some cf \<and> \<not> preloadPaused st \<and> \<not> isPreloading st \<and> 2 * length qualities \<le> length as \<longrightarrow>
     (let r = drive (Bytes fb # as) (preloadAllQualities st)
      in snd r = Finished \<and> \<not> isPreloading (fst r)
       \<and> compress_calls (effects (fst r))
           = compress_calls (effects st) @
             map (Pair fb)
               (filter (\<lambda>q. \<not> PreviewCache_has q (cache st) \<and> q \<notin> pendingQualities st) qualities))"
proof
  assume h: "cur_file st = Some cf \<and> \<not> preloadPaused st \<and> \<not> isPreloading st \<and> 2 * length qualities \<le> length as"
  show "let r = drive (Bytes fb # as) (preloadAllQualities st)
      in snd r = Finished \<and> \<not> isPreloading (fst r)
       \<and> compress_calls (effects (fst r))
           = compress_calls (effects st) @
             map (Pair fb)
               (filter (\<lambda>q. \<not> PreviewCache_has q (cache st) \<and> q \<notin> pendingQualities st) qualities)"
  proof (cases "list_all (\<lambda>q. PreviewCache_has q (cache st)) qualities")
    case True
    then have "filter (\<lambda>q. \<not> PreviewCache_has q (cache st) \<and> q \<notin> pendingQualities st) qualities = []"
      by (auto simp: list_all_iff filter_empty_conv)
    with True h show ?thesis by (simp add: preloadAllQualities_def)
  next
    case False
    let ?st1 = "emit [WorkerInit] (st\<lparr> isPreloading := True \<rparr>)"
    have eq: "drive (Bytes fb # as) (preloadAllQualities st) = drive as (preload_loop cf fb qualities ?st1)"
      using False h by (simp add: preloadAllQualities_def Let_def)
    from loop_isolated [OF distinct_qualities, of ?st1 cf as fb] h
    show ?thesis unfolding eq by (simp add: Let_def)
  qed
qed

lemma resume_submits_uncached_witness:
  "(cur_file ((emit [UpdatePreviewSize 4] (fst (ui_run session_pause (PDFCompressor_new, []))))
              \<lparr> preloadPaused := False \<rparr>) = Some sample_pdf
    \<and> \<not> preloadPaused ((emit [UpdatePreviewSize 4] (fst (ui_run session_pause (PDFCompressor_new, []))))
              \<lparr> preloadPaused := False \<rparr>)
    \<and> \<not> isPreloading ((emit [UpdatePreviewSize 4] (fst (ui_run session_pause (PDFCompressor_new, []))))
              \<lparr> preloadPaused := False \<rparr>)
    \<and> 2 * length qualities \<le> length [Bytes [9], Ok, Bytes [9], Ok, Failed, Ok, Ok, Ok, Ok, Ok])
   \<and> map fst (cache (fst (ui_run session_pause (PDFCompressor_new, [])))) = [''original'', ''low'', ''medium'']
   \<and> map snd (compress_calls (effects (fst (ui_run session_pause (PDFCompressor_new, []))))) = [''low'', ''medium'']
   \<and> map snd (compress_calls (effects (fst
        (drive (Bytes [1, 2, 3, 4] # [Bytes [9], Ok, Bytes [9], Ok, Failed, Ok, Ok, Ok, Ok, Ok])
           (preloadAllQualities
              ((emit [UpdatePreviewSize 4] (fst (ui_run session_pause (PDFCompressor_new, []))))
                 \<lparr> preloadPaused := False \<rparr>))))))
       = [''low'', ''medium'', ''fair'', ''good'', ''high'']"
proof -
  let ?st = "(emit [UpdatePreviewSize 4] (fst (ui_run session_pause (PDFCompressor_new, []))))
              \<lparr> preloadPaused := False \<rparr>"
  let ?as = "[Bytes [9], Ok, Bytes [9], Ok, Failed, Ok, Ok, Ok, Ok, Ok]"
  have h: "cur_file ?st = Some sample_pdf \<and> \<not> preloadPaused ?st \<and> \<not> isPreloading ?st
      \<and> 2 * length qualities \<le> length ?as"
    by code_simp
  have e: "map fst (cache (fst (ui_run session_pause (PDFCompressor_new, [])))) = [''original'', ''low'', ''medium'']"
    "map snd (compress_calls (effects (fst (ui_run session_pause (PDFCompressor_new, []))))) = [''low'', ''medium'']"
    "compress_calls (effects ?st) = [([1, 2, 3, 4], ''low''), ([1, 2, 3, 4], ''medium'')]"
    "filter (\<lambda>q. \<not> PreviewCache_has q (cache ?st) \<and> q \<notin> pendingQualities ?st) qualities
       = [''fair'', ''good'', ''high'']"
    by code_simp+
  from resume_submits_uncached [of ?st sample_pdf ?as "[1, 2, 3, 4]", THEN mp, OF h]
  have "compress_calls (effects (fst (drive (Bytes [1, 2, 3, 4] # ?as) (preloadAllQualities ?st))))
      = [([1, 2, 3, 4], ''low''), ([1, 2, 3, 4], ''medium'')] @ map (Pair [1, 2, 3, 4]) [''fair'', ''good'', ''high'']"
    unfolding Let_def e(3,4) by blast
  then have "map snd (compress_calls (effects (fst (drive (Bytes [1, 2, 3, 4] # ?as) (preloadAllQualities ?st)))))
      = [''low'', ''medium'', ''fair'', ''good'', ''high'']"
    by simp
  with h e(1,2) show ?thesis by blast
qed

text \<open>
  C8. A resumed preload does submit a level again whose job is still pending. Only the
  preload puts its keys into \<open>pendingQualities\<close>; \<open>loadQualityWithPriority\<close> never does.
  In \<open>session_resubmit\<close> the preload has cached \<open>'low'\<close> and is stopped by a click on
  \<open>'original'\<close>; the user clicks \<open>'medium'\<close>, which the stop has shown as available, and
  the job for it is submitted. When the preview of \<open>'original'\<close> finishes the preload
  resumes: it skips the cached \<open>'low'\<close>, finds \<open>'medium'\<close> neither cached nor in the
  pending set, and submits it a second time while the user's job for it is still out.
\<close>

theorem resume_resubmits_pending_level:
  "ui_valid session_resubmit (PDFCompressor_new, [])
   \<and> snd (ui_run (take 10 session_resubmit) (PDFCompressor_new, [])) = [SC_load 4, LQ_compress 3 ''medium'']
   \<and> map snd (compress_calls (effects (fst (ui_run (take 10 session_resubmit) (PDFCompressor_new, [])))))
       = [''low'', ''medium'']
   \<and> pendingQualities (fst (ui_run (take 10 session_resubmit) (PDFCompressor_new, []))) = {}
   \<and> map fst (cache (fst (ui_run (take 10 session_resubmit) (PDFCompressor_new, [])))) = [''original'', ''low'']
   \<and> snd (ui_run session_resubmit (PDFCompressor_new, []))
       = [LQ_compress 3 ''medium'',
          PL_compress sample_pdf [1, 2, 3, 4] ''medium'' [''fair'', ''good'', ''high'']]
   \<and> map snd (compress_calls (effects (fst (ui_run session_resubmit (PDFCompressor_new, [])))))
       = [''low'', ''medium'', ''medium'']"
  by code_simp

subsection \<open>The pending set\<close>

lemma loop_guard:
  "preload_loop cf fb qs st = (st', k) \<Longrightarrow>
     (case k of
        PL_compress cf' fb' q rest \<Rightarrow>
          \<not> PreviewCache_has q (cache st) \<and> q \<notin> pendingQualities st \<and> q \<in> pendingQualities st'
          \<and> (\<exists>pre. effects st' = effects st @ pre @ [PendingAdd q, WorkerCompress fb q]
                   \<and> compress_calls pre = [])
      | _ \<Rightarrow> compress_calls (effects st') = compress_calls (effects st))"
proof (induction qs arbitrary: st)
  case Nil
  then show ?case by auto
next
  case (Cons q rest)
  show ?case
  proof (cases "cur_file st \<noteq> Some cf \<or> preloadPaused st")
    case True
    then have "preload_loop cf fb (q # rest) st = ((unlockRemaining st)\<lparr> isPreloading := False \<rparr>, Finished)"
      by auto
    with Cons.prems have "k = Finished" "st' = (unlockRemaining st)\<lparr> isPreloading := False \<rparr>"
      by simp_all
    then show ?thesis by simp
  next
    case False
    show ?thesis
    proof (cases "PreviewCache_get q (cache st)")
      case (Some cached)
      let ?st1 = "emit [UnlockQuality q (SizeText (length (fst cached)))] st"
      from Cons.prems False Some have "preload_loop cf fb rest ?st1 = (st', k)" by simp
      from Cons.IH [OF this] show ?thesis
        by (cases k) (auto intro: exI [of _ "UnlockQuality q (SizeText (length (fst cached))) # pre" for pre])
    next
      case None
      show ?thesis
      proof (cases "q \<in> pendingQualities st")
        case True
        with Cons.prems False None have "preload_loop cf fb rest st = (st', k)" by simp
        from Cons.IH [OF this] show ?thesis .
      next
        case nin: False
        with Cons.prems False None show ?thesis
          by (auto simp: has_get)
      qed
    qed
  qed
qed

lemma job_done_first_unpends:
  "q \<notin> pendingQualities (fst (resume (PL_compress cf fb q rest) a st))
   \<and> compress_calls (effects (fst (resume (PL_compress cf fb q rest) a st))) = compress_calls (effects st)
   \<and> (\<exists>more. effects (fst (resume (PL_compress cf fb q rest) a st)) = effects st @ PendingDelete q # more)"
  by (cases a) (auto simp: Let_def unlockRemaining_def)

lemma job_done_then_caches:
  "cur_file st = Some cf \<Longrightarrow> \<not> preloadPaused st \<Longrightarrow>
   resume (PL_compress cf fb q rest) (Bytes buffer) st = (st', k) \<Longrightarrow>
     k = PL_delay cf fb rest
   \<and> PreviewCache_get q (cache st') = Some (buffer, Suc (object_urls st))
   \<and> effects st' = effects st @
         [PendingDelete q, CreateObjectURL (Suc (object_urls st)), CacheWrite q (Suc (object_urls st)),
          UnlockQuality q (SizeText (length buffer))]"
  by (auto simp: Let_def get_set_same)

lemma click_cached:
  "cur_file st \<noteq> None \<Longrightarrow> PreviewCache_get q (cache st) = Some cached \<Longrightarrow>
     snd (click q st) = SC_load (length (fst cached))
   \<and> compress_calls (effects (fst (click q st))) = compress_calls (effects st)"
  by (simp add: click_def handleQualityChange_def showCachedPreview_def Let_def has_get)

text \<open>
  C4, as stated, fails twice. In \<open>session_duplicate\<close> the preload has a job for
  \<open>'low'\<close> out and \<open>'low'\<close> is in the pending set when the user clicks \<open>'low'\<close>:
  \<open>loadQualityWithPriority\<close> never looks at the pending set and submits a second job for
  the same key. And when a preload job completes, the key leaves the pending set before the
  cache is written, not after.
\<close>

theorem duplicate_while_pending_counterexample:
  "ui_valid session_duplicate (PDFCompressor_new, [])
   \<and> ''low'' \<in> pendingQualities (fst (ui_run session_duplicate (PDFCompressor_new, [])))
   \<and> \<not> PreviewCache_has ''low'' (cache (fst (ui_run session_duplicate (PDFCompressor_new, []))))
   \<and> last (effects (fst (ui_run session_duplicate (PDFCompressor_new, [])))) = WorkerCompress [1, 2, 3, 4] ''low''
   \<and> snd (ui_run session_duplicate (PDFCompressor_new, []))
       = [PL_compress sample_pdf [1, 2, 3, 4] ''low'' [''medium'', ''fair'', ''good'', ''high''],
          LQ_compress 3 ''low'']
   \<and> filter bookkeeping (effects (fst (ui_run (load_events @
        [Resume (PL_arrayBuffer sample_pdf) (Bytes [1, 2, 3, 4]),
         Resume (PL_compress sample_pdf [1, 2, 3, 4] ''low'' [''medium'', ''fair'', ''good'', ''high'']) (Bytes [7])])
        (PDFCompressor_new, []))))
       = [CacheWrite ''original'' 1, PendingAdd ''low'', PendingDelete ''low'', CacheWrite ''low'' 2]"
  by code_simp

text \<open>
  C4, amended. In the preload loop a key is put into the pending set before its job is
  submitted, and the loop submits no key that is cached or in the pending set. When the job
  settles, the key is removed from the pending set first and no job is submitted in that
  step; if the file is unchanged and no pause is signalled, the cache write follows in the
  same step. A click on a cached key shows the cached entry and submits nothing.
\<close>

theorem preload_guards_pending:
  "(\<forall>st' k. preload_loop cf fb qs st = (st', k) \<longrightarrow>
      (case k of
         PL_compress cf' fb' q rest \<Rightarrow>
           \<not> PreviewCache_has q (cache st) \<and> q \<notin> pendingQualities st \<and> q \<in> pendingQualities st'
           \<and> (\<exists>pre. effects st' = effects st @ pre @ [PendingAdd q, WorkerCompress fb q]
                    \<and> compress_calls pre = [])
       | _ \<Rightarrow> compress_calls (effects st') = compress_calls (effects st)))
   \<and> (q \<notin> pendingQualities (fst (resume (PL_compress cf fb q rest) a st))
      \<and> compress_calls (effects (fst (resume (PL_compress cf fb q rest) a st))) = compress_calls (effects st)
      \<and> (\<exists>more. effects (fst (resume (PL_compress cf fb q rest) a st)) = effects st @ PendingDelete q # more))
   \<and> (\<forall>st' k. cur_file st = Some cf \<and> \<not> preloadPaused st
        \<and> resume (PL_compress cf fb q rest) (Bytes buffer) st = (st', k) \<longrightarrow>
          k = PL_delay cf fb rest
        \<and> PreviewCache_get q (cache st') = Some (buffer, Suc (object_urls st))
        \<and> effects st' = effects st @
             [PendingDelete q, CreateObjectURL (Suc (object_urls st)), CacheWrite q (Suc (object_urls st)),
              UnlockQuality q (SizeText (length buffer))])
   \<and> (\<forall>cached. cur_file st \<noteq> None \<and> PreviewCache_get q (cache st) = Some cached \<longrightarrow>
          snd (click q st) = SC_load (length (fst cached))
        \<and> compress_calls (effects (fst (click q st))) = compress_calls (effects st))"
  using loop_guard [of cf fb qs st] job_done_first_unpends [of q cf fb rest a st]
    job_done_then_caches [of st cf fb q rest buffer] click_cached [of st q]
  by blast

theorem preload_guards_pending_witness:
  "preload_loop sample_pdf [1, 2, 3, 4] qualities
      ((fst (ui_run load_events (PDFCompressor_new, [])))\<lparr> pendingQualities := {''low''} \<rparr>)
     = (emit [PendingAdd ''medium'', WorkerCompress [1, 2, 3, 4] ''medium'']
          ((fst (ui_run load_events (PDFCompressor_new, [])))\<lparr> pendingQualities := {''medium'', ''low''} \<rparr>),
        PL_compress sample_pdf [1, 2, 3, 4] ''medium'' [''fair'', ''good'', ''high''])
   \<and> \<not> PreviewCache_has ''medium'' (cache (fst (ui_run load_events (PDFCompressor_new, []))))
   \<and> ''medium'' \<notin> {''low''}
   \<and> cur_file (fst (ui_run load_events (PDFCompressor_new, []))) \<noteq> None
   \<and> PreviewCache_get ''original'' (cache (fst (ui_run load_events (PDFCompressor_new, [])))) = Some ([1, 2, 3, 4], 1)
   \<and> snd (click ''original'' (fst (ui_run load_events (PDFCompressor_new, [])))) = SC_load 4
   \<and> compress_calls (effects (fst (click ''original'' (fst (ui_run load_events (PDFCompressor_new, []))))))
       = compress_calls (effects (fst (ui_run load_events (PDFCompressor_new, []))))"
proof -
  let ?A = "fst (ui_run load_events (PDFCompressor_new, []))"
  let ?st = "?A\<lparr> pendingQualities := {''low''} \<rparr>"
  have run: "preload_loop sample_pdf [1, 2, 3, 4] qualities ?st
     = (emit [PendingAdd ''medium'', WorkerCompress [1, 2, 3, 4] ''medium'']
          (?A\<lparr> pendingQualities := {''medium'', ''low''} \<rparr>),
        PL_compress sample_pdf [1, 2, 3, 4] ''medium'' [''fair'', ''good'', ''high''])"
    by code_simp
  have h: "cur_file ?A \<noteq> None \<and> PreviewCache_get ''original'' (cache ?A) = Some ([1, 2, 3, 4], 1)"
    by code_simp
  note t = preload_guards_pending [of sample_pdf "[1, 2, 3, 4]" qualities ?st "''original''" "[]" Ok "[]"]
  from t [THEN conjunct1, rule_format, OF run]
  have g: "\<not> PreviewCache_has ''medium'' (cache ?A) \<and> ''medium'' \<notin> {''low''}"
    by simp
  note t2 = preload_guards_pending [of sample_pdf "[1, 2, 3, 4]" qualities ?A "''original''" "[]" Ok "[]"]
  from t2 [THEN conjunct2, THEN conjunct2, THEN conjunct2, rule_format, OF h]
  have c: "snd (click ''original'' ?A) = SC_load 4
    \<and> compress_calls (effects (fst (click ''original'' ?A))) = compress_calls (effects ?A)"
    by simp
  from run g h c show ?thesis by blast
qed

end
